theory Spec2Isabelle
  imports Main "HOL-Library.Sublist" "HOL-Library.Multiset" "HOL-Library.Product_Lexorder"
begin

section \<open>Data model\<close>

text \<open>
  An object is known to the analysis only through its identity (\<open>ID(obj)\<close>, an integer
  compared by value), so a node is a value of an arbitrary type \<open>'a\<close>. A Python \<open>set\<close> is a
  \<open>'a set\<close>; a \<open>dict\<close> is an association list in insertion order. The two places where
  CPython leaves the outcome open are parameters of the model: \<open>pick\<close> is \<open>set.pop()\<close> on the
  set of roots, and \<open>enum\<close> is the order in which a set is iterated.
\<close>

datatype error = KeyError

type_synonym 'a graph = "('a \<times> 'a set) list"

definition keys :: "('k \<times> 'v) list \<Rightarrow> 'k set" where
  "keys d = fst ` set d"

definition getitem :: "('k \<times> 'v) list \<Rightarrow> 'k \<Rightarrow> error + 'v" where
  "getitem d k = (case map_of d k of None \<Rightarrow> Inl KeyError | Some v \<Rightarrow> Inr v)"

definition setitem :: "('k \<times> 'v) list \<Rightarrow> 'k \<Rightarrow> 'v \<Rightarrow> ('k \<times> 'v) list" where
  "setitem d k v =
     (if k \<in> keys d then map (\<lambda>(k', v'). if k' = k then (k', v) else (k', v')) d
      else d @ [(k, v)])"

fun map_result :: "('a \<Rightarrow> error + 'b) \<Rightarrow> 'a list \<Rightarrow> error + 'b list" where
  "map_result f [] = Inr []"
| "map_result f (x # xs) =
    (case f x of Inl e \<Rightarrow> Inl e
     | Inr y \<Rightarrow> (case map_result f xs of Inl e \<Rightarrow> Inl e | Inr ys \<Rightarrow> Inr (y # ys)))"

section \<open>Reference graph builder\<close>

text \<open>
  \<open>{item: garbage.intersection(ID(ref) for ref in gc.get_referents(item.obj)) for item in garbage}\<close>
\<close>

definition build_graph :: "('a set \<Rightarrow> 'a list) \<Rightarrow> ('a \<Rightarrow> 'a list) \<Rightarrow> 'a set \<Rightarrow> 'a graph" where
  "build_graph enum referents garbage =
     map (\<lambda>item. (item, garbage \<inter> set (referents item))) (enum garbage)"

section \<open>Component separator: \<open>separate\<close>\<close>

text \<open>
  The state of the loop: \<open>rootmap\<close>, the dict \<open>union\<close> (roots in insertion order) and a
  counter standing for the identity of the next \<open>object()\<close>.
\<close>

record 'a separate_state =
  rootmap :: "'a \<Rightarrow> nat option"
  union_tbl :: "(nat \<times> 'a set) list"
  fresh :: nat

definition roots_of :: "'a separate_state \<Rightarrow> 'a set \<Rightarrow> nat set" where
  "roots_of st items = (\<Union>item\<in>items. set_option (rootmap st item))"

text \<open>
  One pass of the loop body for the entry \<open>(key, vals)\<close>. \<open>union.pop(rmroot)\<close> and
  \<open>union[root]\<close> raise \<open>KeyError\<close> on a root that is not in the table.
\<close>

definition separate_step ::
  "(nat set \<Rightarrow> nat) \<Rightarrow> 'a separate_state \<Rightarrow> 'a \<times> 'a set \<Rightarrow> error + 'a separate_state" where
  "separate_step pick st kv =
    (let items = insert (fst kv) (snd kv);
         roots = roots_of st items
     in if roots \<noteq> {} then
          (let root = pick roots;
               rest = roots - {root};
               items' = items \<union> (\<Union>(r, s)\<in>set (union_tbl st). if r \<in> rest then s else {});
               popped = filter (\<lambda>(r, s). r \<notin> rest) (union_tbl st)
           in if \<not> roots \<subseteq> fst ` set (union_tbl st) then Inl KeyError
              else Inr (st\<lparr>rootmap := (\<lambda>x. if x \<in> items' then Some root else rootmap st x),
                           union_tbl := map (\<lambda>(r, s). if r = root then (r, s \<union> items') else (r, s)) popped\<rparr>))
        else
          (let root = fresh st
           in Inr (st\<lparr>rootmap := (\<lambda>x. if x \<in> items then Some root else rootmap st x),
                        union_tbl := union_tbl st @ [(root, items)],
                        fresh := Suc (fresh st)\<rparr>)))"

fun separate_loop ::
  "(nat set \<Rightarrow> nat) \<Rightarrow> 'a separate_state \<Rightarrow> 'a graph \<Rightarrow> error + 'a separate_state" where
  "separate_loop pick st [] = Inr st"
| "separate_loop pick st (kv # kvs) =
    (case separate_step pick st kv of Inl e \<Rightarrow> Inl e | Inr st' \<Rightarrow> separate_loop pick st' kvs)"

text \<open>\<open>{key: refs[key] for key in s}\<close>\<close>

definition materialize :: "('a set \<Rightarrow> 'a list) \<Rightarrow> 'a graph \<Rightarrow> 'a set \<Rightarrow> error + 'a graph" where
  "materialize enum refs s =
     map_result (\<lambda>key. case getitem refs key of Inl e \<Rightarrow> Inl e | Inr vals \<Rightarrow> Inr (key, vals)) (enum s)"

definition separate ::
  "(nat set \<Rightarrow> nat) \<Rightarrow> ('a set \<Rightarrow> 'a list) \<Rightarrow> 'a graph \<Rightarrow> error + 'a graph list" where
  "separate pick enum refs =
     (case separate_loop pick \<lparr>rootmap = Map.empty, union_tbl = [], fresh = 0\<rparr> refs of
        Inl e \<Rightarrow> Inl e
      | Inr st \<Rightarrow> map_result (materialize enum refs) (map snd (union_tbl st)))"

text \<open>What \<open>set.pop()\<close> and set iteration guarantee, and the graph notions of the claims.\<close>

definition good_pick :: "(nat set \<Rightarrow> nat) \<Rightarrow> bool" where
  "good_pick pick \<longleftrightarrow> (\<forall>S. finite S \<and> S \<noteq> {} \<longrightarrow> pick S \<in> S)"

definition good_enum :: "('a set \<Rightarrow> 'a list) \<Rightarrow> bool" where
  "good_enum enum \<longleftrightarrow> (\<forall>S. finite S \<longrightarrow> set (enum S) = S \<and> distinct (enum S))"

definition finite_refs :: "'a graph \<Rightarrow> bool" where
  "finite_refs refs \<longleftrightarrow> (\<forall>(k, vs)\<in>set refs. finite vs)"

definition refs_closed :: "'a graph \<Rightarrow> bool" where
  "refs_closed refs \<longleftrightarrow> (\<forall>(k, vs)\<in>set refs. vs \<subseteq> keys refs)"

definition edges :: "'a graph \<Rightarrow> ('a \<times> 'a) set" where
  "edges refs = {(k, v). \<exists>vs. (k, vs) \<in> set refs \<and> v \<in> vs}"

definition nodes :: "'a graph \<Rightarrow> 'a set" where
  "nodes refs = (\<Union>(k, vs)\<in>set refs. insert k vs)"

definition linked :: "'a graph \<Rightarrow> 'a \<Rightarrow> 'a \<Rightarrow> bool" where
  "linked refs x y \<longleftrightarrow> (x, y) \<in> (edges refs \<union> (edges refs)\<inverse>)\<^sup>*"

definition partition_of :: "error + 'a graph list \<Rightarrow> error + 'a set set" where
  "partition_of res = (case res of Inl e \<Rightarrow> Inl e | Inr comps \<Rightarrow> Inr (keys ` set comps))"

definition restrict_to :: "('a set \<Rightarrow> 'a list) \<Rightarrow> 'a graph \<Rightarrow> 'a set \<Rightarrow> 'a graph" where
  "restrict_to enum refs s = map (\<lambda>key. (key, the (map_of refs key))) (enum s)"

definition table_inv :: "'a separate_state \<Rightarrow> bool" where
  "table_inv st \<longleftrightarrow>
     distinct (map fst (union_tbl st)) \<and>
     (\<forall>(r, s)\<in>set (union_tbl st). s = {x. rootmap st x = Some r} \<and> r < fresh st \<and> finite s \<and> s \<noteq> {}) \<and>
     (\<forall>x r. rootmap st x = Some r \<longrightarrow> r \<in> fst ` set (union_tbl st))"

definition touched :: "'a separate_state \<Rightarrow> 'a \<times> 'a set \<Rightarrow> 'a \<Rightarrow> bool" where
  "touched st kv x \<longleftrightarrow>
     x \<in> insert (fst kv) (snd kv) \<or>
     (\<exists>r\<in>roots_of st (insert (fst kv) (snd kv)). rootmap st x = Some r)"

definition conn_inv :: "'a separate_state \<Rightarrow> 'a graph \<Rightarrow> bool" where
  "conn_inv st ps \<longleftrightarrow>
     dom (rootmap st) = nodes ps \<and>
     (\<forall>(a, b)\<in>edges ps. rootmap st a = rootmap st b) \<and>
     (\<forall>x y r. rootmap st x = Some r \<and> rootmap st y = Some r \<longrightarrow> linked ps x y)"

section \<open>Cycle simplifier\<close>

text \<open>
  Container collapse, one pass of the loop body for \<open>item\<close>. \<open>dict_of item\<close> is the identity
  of \<open>item.obj.__dict__\<close> when that attribute exists and is a \<open>dict\<close>.
\<close>

definition collapse_step :: "('a \<Rightarrow> 'a option) \<Rightarrow> 'a graph \<Rightarrow> 'a \<Rightarrow> error + 'a graph" where
  "collapse_step dict_of cycle item =
     (case dict_of item of
        None \<Rightarrow> Inr cycle
      | Some ref \<Rightarrow>
          (case getitem cycle item of
             Inl e \<Rightarrow> Inl e
           | Inr own \<Rightarrow>
               if ref \<in> own \<and> \<not> (\<exists>(otheritem, otherrefs)\<in>set cycle. otheritem \<noteq> item \<and> ref \<in> otherrefs)
               then (case getitem cycle ref of
                       Inl e \<Rightarrow> Inl e
                     | Inr theirs \<Rightarrow> Inr (setitem (setitem cycle item (theirs \<union> (own - {ref}))) ref {}))
               else Inr cycle))"

fun collapse_loop :: "('a \<Rightarrow> 'a option) \<Rightarrow> 'a graph \<Rightarrow> 'a list \<Rightarrow> error + 'a graph" where
  "collapse_loop dict_of cycle [] = Inr cycle"
| "collapse_loop dict_of cycle (item # items) =
     (case collapse_step dict_of cycle item of
        Inl e \<Rightarrow> Inl e
      | Inr cycle' \<Rightarrow> collapse_loop dict_of cycle' items)"

definition collapse :: "('a \<Rightarrow> 'a option) \<Rightarrow> 'a graph \<Rightarrow> error + 'a graph" where
  "collapse dict_of cycle = collapse_loop dict_of cycle (map fst cycle)"

text \<open>
  The collapse pass as the specification words it, every condition read on the component
  as it enters the pass: member \<open>A\<close> is the sole owner of \<open>S\<close> when \<open>S\<close> is its \<open>__dict__\<close>,
  is in its edge set and is in no other member's edge set; a sole owner gets its own edges
  without \<open>S\<close> united with those of \<open>S\<close>, the backing store of a sole owner gets the empty
  set, every other member keeps its edges. \<open>relabel f cycle\<close> is \<open>cycle\<close> with the edge set
  of every member \<open>x\<close> replaced by \<open>f x\<close>.
\<close>

definition edge_set :: "'a graph \<Rightarrow> 'a \<Rightarrow> 'a set" where
  "edge_set cycle x = (case map_of cycle x of None \<Rightarrow> {} | Some refs \<Rightarrow> refs)"

definition relabel :: "('a \<Rightarrow> 'a set) \<Rightarrow> 'a graph \<Rightarrow> 'a graph" where
  "relabel f cycle = map (\<lambda>(x, refs). (x, f x)) cycle"

definition sole_owner :: "('a \<Rightarrow> 'a option) \<Rightarrow> 'a graph \<Rightarrow> 'a \<Rightarrow> 'a \<Rightarrow> bool" where
  "sole_owner dict_of cycle A S \<longleftrightarrow>
     dict_of A = Some S \<and> A \<in> keys cycle \<and> S \<in> edge_set cycle A \<and>
     \<not> (\<exists>(B, refs)\<in>set cycle. B \<noteq> A \<and> S \<in> refs)"

definition spec_collapsed_edges :: "('a \<Rightarrow> 'a option) \<Rightarrow> 'a graph \<Rightarrow> 'a \<Rightarrow> 'a set" where
  "spec_collapsed_edges dict_of cycle x =
     (case dict_of x of
        Some S \<Rightarrow>
          if sole_owner dict_of cycle x S then edge_set cycle x - {S} \<union> edge_set cycle S
          else edge_set cycle x
      | None \<Rightarrow>
          if \<exists>A\<in>keys cycle. sole_owner dict_of cycle A x then {} else edge_set cycle x)"

definition spec_collapse :: "('a \<Rightarrow> 'a option) \<Rightarrow> 'a graph \<Rightarrow> 'a graph" where
  "spec_collapse dict_of cycle = relabel (spec_collapsed_edges dict_of cycle) cycle"

text \<open>The same, when only the members of \<open>visited\<close> have had their turn.\<close>

definition partial_edges :: "('a \<Rightarrow> 'a option) \<Rightarrow> 'a graph \<Rightarrow> 'a list \<Rightarrow> 'a \<Rightarrow> 'a set" where
  "partial_edges dict_of cycle visited x =
     (case dict_of x of
        Some S \<Rightarrow>
          if x \<in> set visited \<and> sole_owner dict_of cycle x S
          then edge_set cycle x - {S} \<union> edge_set cycle S
          else edge_set cycle x
      | None \<Rightarrow>
          if \<exists>A\<in>set visited. sole_owner dict_of cycle A x then {} else edge_set cycle x)"

text \<open>Tail pruning: \<open>remove\<close>, one round, and the \<open>while True\<close> loop.\<close>

definition empties :: "'a graph \<Rightarrow> 'a set" where
  "empties cycle = fst ` set (filter (\<lambda>(item, refs). refs = {}) cycle)"

definition prune_round :: "'a graph \<Rightarrow> 'a graph" where
  "prune_round cycle =
     map (\<lambda>(item, refs). (item, refs - empties cycle))
       (filter (\<lambda>(item, refs). item \<notin> empties cycle) cycle)"

function prune :: "'a graph \<Rightarrow> 'a graph" where
  "prune cycle = (if empties cycle = {} then cycle else prune (prune_round cycle))"
  by pat_completeness auto
termination
proof (relation "measure length")
  show "wf (measure length)" by simp
next
  fix cycle :: "'a graph"
  assume "empties cycle \<noteq> {}"
  then obtain item where i: "item \<in> empties cycle" by blast
  then obtain refs where "(item, refs) \<in> set cycle" by (auto simp: empties_def)
  with i have "length (filter (\<lambda>(item, refs). item \<notin> empties cycle) cycle) < length cycle"
    by (intro length_filter_less[of "(item, refs)"]) auto
  then show "(prune_round cycle, cycle) \<in> measure length"
    by (simp add: prune_round_def)
qed

definition simplify :: "('a \<Rightarrow> 'a option) \<Rightarrow> 'a graph \<Rightarrow> error + 'a graph" where
  "simplify dict_of cycle =
     (case collapse dict_of cycle of Inl e \<Rightarrow> Inl e | Inr cycle' \<Rightarrow> Inr (prune cycle'))"

section \<open>Session set-up: \<open>explore_cycles.__init__\<close>\<close>

record 'a session =
  cycles :: "(nat \<times> 'a graph) list"
  selection :: nat
  locals :: "(string \<times> 'a) list"

definition total_size :: "('a \<Rightarrow> nat) \<Rightarrow> 'a graph \<Rightarrow> nat" where
  "total_size sizeof cycle = sum_list (map (\<lambda>(item, refs). sizeof item) cycle)"

definition analyse :: "('a \<Rightarrow> nat) \<Rightarrow> ('a \<Rightarrow> 'a option) \<Rightarrow> 'a graph \<Rightarrow> error + nat \<times> 'a graph" where
  "analyse sizeof dict_of cycle =
     (let size = total_size sizeof cycle
      in case simplify dict_of cycle of Inl e \<Rightarrow> Inl e | Inr cycle' \<Rightarrow> Inr (size, cycle'))"

definition sort_key_of :: "nat \<times> 'a graph \<Rightarrow> nat \<times> nat" where
  "sort_key_of v = (fst v, length (snd v))"

text \<open>
  \<open>__init__\<close> up to \<open>self.selection = 0\<close>; \<open>None\<close> is the early return on an empty garbage
  set. The binding table \<open>locals\<close> is filled by \<open>list\<close>, which runs next.
\<close>

definition explore_cycles_init ::
  "(nat set \<Rightarrow> nat) \<Rightarrow> ('a set \<Rightarrow> 'a list) \<Rightarrow> ('a \<Rightarrow> 'a list) \<Rightarrow> ('a \<Rightarrow> nat) \<Rightarrow> ('a \<Rightarrow> 'a option) \<Rightarrow>
   'a set \<Rightarrow> error + 'a session option" where
  "explore_cycles_init pick enum referents sizeof dict_of garbage =
     (if garbage = {} then Inr None
      else case separate pick enum (build_graph enum referents garbage) of
             Inl e \<Rightarrow> Inl e
           | Inr comps \<Rightarrow>
               (case map_result (analyse sizeof dict_of) comps of
                  Inl e \<Rightarrow> Inl e
                | Inr cs \<Rightarrow> Inr (Some \<lparr>cycles = sort_key sort_key_of cs, selection = 0, locals = []\<rparr>)))"

text \<open>
  The ranking as the specification words it: the member count of the sort key is the one
  the component has before it is simplified.
\<close>

definition spec_ranking ::
  "('a \<Rightarrow> nat) \<Rightarrow> ('a \<Rightarrow> 'a option) \<Rightarrow> 'a graph list \<Rightarrow> error + (nat \<times> 'a graph) list" where
  "spec_ranking sizeof dict_of comps =
     map_result (analyse sizeof dict_of)
       (sort_key (\<lambda>cycle. (total_size sizeof cycle, length cycle)) comps)"

section \<open>Display names: \<open>explore_cycles.list\<close>\<close>

text \<open>
  \<open>varnames = 'abc...z'\<close>, then \<open>while len(varnames) < len(cycle): varnames = [a+b for a in
  varnames for b in varnames]\<close>, then \<open>varmap = dict(zip(cycle, varnames))\<close>. The loop is a
  partial function: \<open>None\<close> is the run that never leaves it.
\<close>

definition letters :: "string list" where
  "letters = map (\<lambda>c. [c]) ''abcdefghijklmnopqrstuvwxyz''"

partial_function (option) extend_varnames :: "string list \<Rightarrow> nat \<Rightarrow> string list option" where
  "extend_varnames varnames n =
     (if length varnames < n
      then extend_varnames (concat (map (\<lambda>a. map (\<lambda>b. a @ b) varnames) varnames)) n
      else Some varnames)"

declare extend_varnames.simps [code]

definition varmap :: "'a graph \<Rightarrow> ('a \<times> string) list option" where
  "varmap cycle = map_option (zip (map fst cycle)) (extend_varnames letters (length cycle))"

text \<open>
  The sequence of names as the specification words it: a, b, ..., z, aa, ab, ... (the
  \<open>k\<close>-th identifier, counted from 0).
\<close>

definition letter :: "nat \<Rightarrow> char" where
  "letter i = ''abcdefghijklmnopqrstuvwxyz'' ! i"

function alpha_name :: "nat \<Rightarrow> string" where
  "alpha_name k = (if k < 26 then [letter k] else alpha_name (k div 26 - 1) @ [letter (k mod 26)])"
  by pat_completeness auto
termination
  by (relation "measure id") auto

declare alpha_name.simps [simp del]

definition spec_varmap :: "'a graph \<Rightarrow> ('a \<times> string) list" where
  "spec_varmap cycle = zip (map fst cycle) (map alpha_name [0..<length cycle])"

text \<open>All words of a given length over the alphabet, in lexicographic order.\<close>

fun words_of_length :: "nat \<Rightarrow> string list" where
  "words_of_length 0 = [[]]"
| "words_of_length (Suc n) = concat (map (\<lambda>a. map (\<lambda>w. a @ w) (words_of_length n)) letters)"

section \<open>Reference describer: \<open>fmtref\<close>\<close>

text \<open>
  What \<open>fmtref\<close> can see of the owner: its items when it is a \<open>Mapping\<close>, its elements when
  it is a \<open>Sequence\<close>, its members when it is a \<open>Set\<close> (each in iteration order, as
  identities), and \<open>dir(obj)\<close> with the result of \<open>getattr\<close> for every name (\<open>None\<close> when
  \<open>getattr\<close> raises). \<open>fmt_r key\<close> is the text of \<open>'%r' % key\<close>, \<open>None\<close> when the operator
  raises (a tuple key of a length other than one).
\<close>

record 'a pyobj =
  mapping_items :: "('a \<times> 'a) list option"
  sequence_items :: "'a list option"
  set_items :: "'a list option"
  attributes :: "(string \<times> 'a option) list"

datatype outcome = Return string | Raise | Continue

definition digit :: "nat \<Rightarrow> char" where
  "digit d = ''0123456789'' ! d"

function show_nat :: "nat \<Rightarrow> string" where
  "show_nat n = (if n < 10 then [digit n] else show_nat (n div 10) @ [digit (n mod 10)])"
  by pat_completeness auto
termination
  by (relation "measure id") auto

declare show_nat.simps [simp del]

fun probe_mapping :: "('a \<Rightarrow> string option) \<Rightarrow> 'a \<Rightarrow> ('a \<times> 'a) list \<Rightarrow> outcome" where
  "probe_mapping fmt_r ref [] = Continue"
| "probe_mapping fmt_r ref ((key, value) # rest) =
     (if value = ref then
        (case fmt_r key of None \<Rightarrow> Raise | Some r \<Rightarrow> Return (''{obj:}['' @ r @ ''] is {ref:}''))
      else if key = ref then Return ''{obj:}[{ref:}]''
      else probe_mapping fmt_r ref rest)"

fun probe_sequence :: "'a \<Rightarrow> nat \<Rightarrow> 'a list \<Rightarrow> outcome" where
  "probe_sequence ref i [] = Continue"
| "probe_sequence ref i (value # rest) =
     (if value = ref then Return (''{obj:}['' @ show_nat i @ ''] is {ref:}'')
      else probe_sequence ref (Suc i) rest)"

definition probe_set :: "'a \<Rightarrow> 'a list \<Rightarrow> outcome" where
  "probe_set ref members = (if ref \<in> set members then Return ''{ref:} in {obj:}'' else Continue)"

fun probe_attrs :: "'a \<Rightarrow> (string \<times> 'a option) list \<Rightarrow> outcome" where
  "probe_attrs ref [] = Continue"
| "probe_attrs ref ((attr, got) # rest) =
     (case got of
        None \<Rightarrow> Raise
      | Some v \<Rightarrow> if v = ref then Return (''{obj:}.'' @ attr @ '' is {ref:}'')
                   else probe_attrs ref rest)"

definition or_else :: "outcome \<Rightarrow> outcome \<Rightarrow> outcome" where
  "or_else a b = (case a of Continue \<Rightarrow> b | _ \<Rightarrow> a)"

definition fmtref_try :: "('a \<Rightarrow> string option) \<Rightarrow> 'a pyobj \<Rightarrow> 'a \<Rightarrow> outcome" where
  "fmtref_try fmt_r obj ref =
     or_else (case mapping_items obj of None \<Rightarrow> Continue | Some items \<Rightarrow> probe_mapping fmt_r ref items)
    (or_else (case sequence_items obj of None \<Rightarrow> Continue | Some values \<Rightarrow> probe_sequence ref 0 values)
    (or_else (case set_items obj of None \<Rightarrow> Continue | Some members \<Rightarrow> probe_set ref members)
             (probe_attrs ref (attributes obj))))"

text \<open>\<open>except: pass\<close>, and falling off the end, both return \<open>None\<close>.\<close>

definition fmtref :: "('a \<Rightarrow> string option) \<Rightarrow> 'a pyobj \<Rightarrow> 'a \<Rightarrow> string option" where
  "fmtref fmt_r obj ref = (case fmtref_try fmt_r obj ref of Return s \<Rightarrow> Some s | _ \<Rightarrow> None)"

text \<open>The caller, in \<open>list\<close>: \<open>fmtref(item.obj, ref.obj) or '{obj:} -> {ref:}'\<close>.\<close>

definition describe :: "('a \<Rightarrow> string option) \<Rightarrow> 'a pyobj \<Rightarrow> 'a \<Rightarrow> string" where
  "describe fmt_r obj ref =
     (case fmtref fmt_r obj ref of
        None \<Rightarrow> ''{obj:} -> {ref:}''
      | Some s \<Rightarrow> if s = [] then ''{obj:} -> {ref:}'' else s)"

text \<open>What a capability contributes to the scan: its elements, or nothing when absent.\<close>

definition entries :: "'x list option \<Rightarrow> 'x list" where
  "entries xs = (case xs of None \<Rightarrow> [] | Some ys \<Rightarrow> ys)"

text \<open>
  The describer as the specification words it: five probes, each over the whole owner,
  tried in the order mapping value, mapping key, sequence element, set member, named
  attribute; the phrase of the first probe that matches.
\<close>

definition spec_probes :: "('a \<Rightarrow> string option) \<Rightarrow> 'a pyobj \<Rightarrow> 'a \<Rightarrow> string option list" where
  "spec_probes fmt_r obj ref =
     [case mapping_items obj of
        None \<Rightarrow> None
      | Some items \<Rightarrow>
          (case find (\<lambda>(key, value). value = ref) items of
             None \<Rightarrow> None
           | Some (key, value) \<Rightarrow> map_option (\<lambda>r. ''{obj:}['' @ r @ ''] is {ref:}'') (fmt_r key)),
      case mapping_items obj of
        None \<Rightarrow> None
      | Some items \<Rightarrow> if ref \<in> fst ` set items then Some ''{obj:}[{ref:}]'' else None,
      case sequence_items obj of
        None \<Rightarrow> None
      | Some values \<Rightarrow>
          if ref \<in> set values
          then Some (''{obj:}['' @ show_nat (length (takeWhile (\<lambda>v. v \<noteq> ref) values)) @ ''] is {ref:}'')
          else None,
      case set_items obj of
        None \<Rightarrow> None
      | Some members \<Rightarrow> if ref \<in> set members then Some ''{ref:} in {obj:}'' else None,
      case find (\<lambda>(attr, got). got = Some ref) (attributes obj) of
        None \<Rightarrow> None
      | Some (attr, got) \<Rightarrow> Some (''{obj:}.'' @ attr @ '' is {ref:}'')]"

definition spec_describe :: "('a \<Rightarrow> string option) \<Rightarrow> 'a pyobj \<Rightarrow> 'a \<Rightarrow> string" where
  "spec_describe fmt_r obj ref =
     (case find (\<lambda>p. p \<noteq> None) (spec_probes fmt_r obj ref) of
        Some (Some s) \<Rightarrow> s
      | _ \<Rightarrow> ''{obj:} -> {ref:}'')"

section \<open>Traceback reconciler: \<open>do_traceback\<close>\<close>

type_synonym frame = "string \<times> nat"

text \<open>
  A traceback is the tuple that \<open>tracemalloc._get_object_traceback\<close> hands out for an
  object: pairs of path and line, the most recent frame first and the oldest frame last.
  \<open>oldest_first\<close> lists the same frames in the order in which the specification writes a
  traceback (oldest first, innermost last).
\<close>

definition oldest_first :: "frame list \<Rightarrow> frame list" where
  "oldest_first tb = rev tb"

text \<open>
  \<open>tb[:i]\<close> for the first frame whose path is \<open>__file__\<close>; \<open>None\<close> is the \<open>else\<close> branch of
  the \<open>for\<close> loop (no such frame).
\<close>

fun truncate_at :: "string \<Rightarrow> frame list \<Rightarrow> frame list option" where
  "truncate_at file [] = None"
| "truncate_at file ((path, line) # rest) =
     (if path = file then Some [] else map_option ((#) (path, line)) (truncate_at file rest))"

fun classify ::
  "string \<Rightarrow> frame list option list \<Rightarrow> frame list list \<Rightarrow> frame list list \<Rightarrow>
   frame list list \<times> frame list list" where
  "classify file [] complete incomplete = (complete, incomplete)"
| "classify file (None # rest) complete incomplete = classify file rest complete incomplete"
| "classify file (Some tb # rest) complete incomplete =
     (case truncate_at file tb of
        Some t \<Rightarrow> classify file rest (complete @ [t]) incomplete
      | None \<Rightarrow> classify file rest complete (incomplete @ [tb]))"

text \<open>\<open>min(complete, key=len)\<close> on a non-empty list: the first element of least length.\<close>

definition min_len :: "'a list \<Rightarrow> 'a list list \<Rightarrow> 'a list" where
  "min_len x xs = foldl (\<lambda>m tb. if length tb < length m then tb else m) x xs"

text \<open>The slice \<open>xs[i:]\<close>, with Python's reading of a negative start.\<close>

definition slice_from :: "int \<Rightarrow> 'a list \<Rightarrow> 'a list" where
  "slice_from i xs = (if i < 0 then drop (nat (int (length xs) + i)) xs else drop (nat i) xs)"

function trim_common :: "'a list list \<Rightarrow> 'a list \<Rightarrow> 'a list" where
  "trim_common complete common =
     (if common \<noteq> [] \<and> (\<exists>tb\<in>set complete. slice_from (int (length tb) - int (length common)) tb \<noteq> common)
      then trim_common complete (tl common)
      else common)"
  by pat_completeness auto
termination
  by (relation "measure (\<lambda>(complete, common). length common)") auto

declare trim_common.simps [simp del]

datatype 's report =
    Invalid_argument 's
  | Common_traceback "frame list"
  | Cannot_establish
  | Truncated_traceback "frame list"
  | No_traceback

text \<open>
  The reports stand for what the command prints: \<open>Invalid_argument arg\<close> for
  \<open>invalid argument 'arg'\<close>, \<open>Common_traceback\<close> for the formatted common frames,
  \<open>Cannot_establish\<close> for \<open>cannot establish common traceback (try increasing the traceback
  depth)\<close>, \<open>Truncated_traceback\<close> for the formatted frames followed by the line \<open>...\<close>,
  \<open>No_traceback\<close> for \<open>no traceback found\<close>.
\<close>

definition reconcile :: "frame list list \<Rightarrow> frame list list \<Rightarrow> 's report" where
  "reconcile complete incomplete =
     (case complete of
        c # cs \<Rightarrow> Common_traceback (trim_common complete (min_len c cs))
      | [] \<Rightarrow>
          if length incomplete > 1 then Cannot_establish
          else if incomplete \<noteq> [] then Truncated_traceback (hd incomplete)
          else No_traceback)"

text \<open>
  The command line \<open>arg\<close> is a text of the runtime, of a type \<open>'s\<close> left open, and
  \<open>split arg\<close> is \<open>arg.split()\<close>, a builtin of the runtime: both are parameters of the
  model, so that nothing is assumed about which characters separate names.
\<close>

definition do_traceback ::
  "('s \<Rightarrow> string list) \<Rightarrow> string \<Rightarrow> ('a \<Rightarrow> frame list option) \<Rightarrow> 'a session \<Rightarrow> 's \<Rightarrow>
   's report \<times> 'a session" where
  "do_traceback split file traceback_of s arg =
     (case those (map (map_of (locals s)) (if split arg \<noteq> [] then split arg else map fst (locals s))) of
        None \<Rightarrow> (Invalid_argument arg, s)
      | Some objects \<Rightarrow>
          (case classify file (map traceback_of objects) [] [] of
             (complete, incomplete) \<Rightarrow> (reconcile complete incomplete, s)))"

section \<open>Correctness of the component separator\<close>

lemma roots_of_iff: "r \<in> roots_of st items \<longleftrightarrow> (\<exists>x\<in>items. rootmap st x = Some r)"
  by (auto simp: roots_of_def elem_set)

lemma finite_roots_of: "finite items \<Longrightarrow> finite (roots_of st items)"
  by (simp add: roots_of_def)

lemma step_fresh:
  assumes inv: "table_inv st" and fin: "finite vs" and empty: "roots_of st (insert k vs) = {}"
  shows "\<exists>st'. separate_step pick st (k, vs) = Inr st' \<and>
           rootmap st' = (\<lambda>x. if touched st (k, vs) x then Some (fresh st) else rootmap st x) \<and>
           (\<forall>x. rootmap st x \<noteq> Some (fresh st)) \<and> table_inv st'"
proof -
  let ?items = "insert k vs"
  let ?st' = "st\<lparr>rootmap := (\<lambda>x. if x \<in> ?items then Some (fresh st) else rootmap st x),
                  union_tbl := union_tbl st @ [(fresh st, ?items)],
                  fresh := Suc (fresh st)\<rparr>"
  have step: "separate_step pick st (k, vs) = Inr ?st'"
    by (simp add: separate_step_def empty Let_def)
  have t: "touched st (k, vs) x \<longleftrightarrow> x \<in> ?items" for x
    by (simp add: touched_def empty)
  have nofresh: "rootmap st x \<noteq> Some (fresh st)" for x
  proof
    assume "rootmap st x = Some (fresh st)"
    with inv have "fresh st \<in> fst ` set (union_tbl st)" by (auto simp: table_inv_def)
    with inv show False by (fastforce simp: table_inv_def)
  qed
  have none: "rootmap st x = None" if "x \<in> ?items" for x
    using that empty roots_of_iff[of _ st ?items] by (cases "rootmap st x") auto
  have "table_inv ?st'"
    unfolding table_inv_def
  proof (intro conjI)
    show "distinct (map fst (union_tbl ?st'))"
      using inv by (fastforce simp: table_inv_def)
    show "\<forall>(r, s)\<in>set (union_tbl ?st'). s = {x. rootmap ?st' x = Some r} \<and> r < fresh ?st' \<and> finite s \<and> s \<noteq> {}"
    proof (clarify)
      fix r s assume rs: "(r, s) \<in> set (union_tbl ?st')"
      show "s = {x. rootmap ?st' x = Some r} \<and> r < fresh ?st' \<and> finite s \<and> s \<noteq> {}"
      proof (cases "(r, s) \<in> set (union_tbl st)")
        case True
        with inv have *: "s = {x. rootmap st x = Some r}" "r < fresh st" "finite s" "s \<noteq> {}"
          by (auto simp: table_inv_def)
        have "{x. rootmap ?st' x = Some r} = {x. rootmap st x = Some r}"
          using none * by auto
        with * show ?thesis by simp
      next
        case False
        with rs have "r = fresh st" "s = ?items" by auto
        then show ?thesis using fin nofresh by auto
      qed
    qed
    show "\<forall>x r. rootmap ?st' x = Some r \<longrightarrow> r \<in> fst ` set (union_tbl ?st')"
      using inv by (auto simp: table_inv_def)
  qed
  with step t nofresh show ?thesis by (auto simp: fun_eq_iff)
qed

lemma step_merge:
  assumes inv: "table_inv st" and fin: "finite vs" and gp: "good_pick pick"
    and nonempty: "roots_of st (insert k vs) \<noteq> {}"
  shows "\<exists>st'. separate_step pick st (k, vs) = Inr st' \<and>
           rootmap st' = (\<lambda>x. if touched st (k, vs) x then Some (pick (roots_of st (insert k vs))) else rootmap st x) \<and>
           pick (roots_of st (insert k vs)) \<in> roots_of st (insert k vs) \<and> table_inv st'"
proof -
  let ?items = "insert k vs"
  let ?roots = "roots_of st ?items"
  let ?root = "pick ?roots"
  let ?rest = "?roots - {?root}"
  let ?items' = "?items \<union> (\<Union>(r, s)\<in>set (union_tbl st). if r \<in> ?rest then s else {})"
  let ?popped = "filter (\<lambda>(r, s). r \<notin> ?rest) (union_tbl st)"
  let ?upd = "\<lambda>(r, s). if r = ?root then (r, s \<union> ?items') else (r, s)"
  let ?st' = "st\<lparr>rootmap := (\<lambda>x. if x \<in> ?items' then Some ?root else rootmap st x),
                  union_tbl := map ?upd ?popped\<rparr>"
  have b1: "s = {x. rootmap st x = Some r}" "r < fresh st" "finite s" "s \<noteq> {}"
    if "(r, s) \<in> set (union_tbl st)" for r s
    using inv that by (auto simp: table_inv_def)
  have b2: "\<exists>s. (r, s) \<in> set (union_tbl st)" if "rootmap st x = Some r" for x r
    using inv that by (fastforce simp: table_inv_def)
  have dist: "distinct (map fst (union_tbl st))"
    using inv by (simp add: table_inv_def)
  have finroots: "finite ?roots"
    using fin by (simp add: finite_roots_of)
  have root_in: "?root \<in> ?roots"
    using gp finroots nonempty by (simp add: good_pick_def)
  have sub: "?roots \<subseteq> fst ` set (union_tbl st)"
  proof
    fix r assume "r \<in> ?roots"
    then obtain x where "rootmap st x = Some r" by (auto simp: roots_of_iff)
    from b2[OF this] show "r \<in> fst ` set (union_tbl st)" by force
  qed
  have step: "separate_step pick st (k, vs) = Inr ?st'"
    using nonempty sub by (simp add: separate_step_def Let_def)
  have F1: "x \<in> ?items' \<longleftrightarrow> x \<in> ?items \<or> (\<exists>r\<in>?rest. rootmap st x = Some r)" for x
  proof
    assume "x \<in> ?items'"
    then consider "x \<in> ?items" | r s where "(r, s) \<in> set (union_tbl st)" "r \<in> ?rest" "x \<in> s"
      by (auto split: if_splits)
    then show "x \<in> ?items \<or> (\<exists>r\<in>?rest. rootmap st x = Some r)"
    proof cases
      case 1 then show ?thesis by simp
    next
      case 2
      from b1(1)[OF 2(1)] 2(3) have "rootmap st x = Some r" by simp
      with 2(2) show ?thesis by blast
    qed
  next
    assume "x \<in> ?items \<or> (\<exists>r\<in>?rest. rootmap st x = Some r)"
    then show "x \<in> ?items'"
    proof
      assume "x \<in> ?items" then show ?thesis by blast
    next
      assume "\<exists>r\<in>?rest. rootmap st x = Some r"
      then obtain r where r: "r \<in> ?rest" "rootmap st x = Some r" by blast
      from b2[OF r(2)] obtain s where s: "(r, s) \<in> set (union_tbl st)" by blast
      from b1(1)[OF s] r(2) have "x \<in> s" by simp
      with s r(1) show ?thesis by force
    qed
  qed
  have item_root: "r \<in> ?roots" if "x \<in> ?items" "rootmap st x = Some r" for x r
    using that by (auto simp: roots_of_iff)
  have F2: "rootmap ?st' x = (if touched st (k, vs) x then Some ?root else rootmap st x)" for x
  proof (cases "x \<in> ?items'")
    case True
    then have "touched st (k, vs) x" unfolding F1 touched_def by auto
    with True show ?thesis by simp
  next
    case False
    show ?thesis
    proof (cases "touched st (k, vs) x")
      case True
      with False obtain r where r: "r \<in> ?roots" "rootmap st x = Some r"
        unfolding F1 touched_def by auto
      with False have "r = ?root" unfolding F1 by auto
      with r False True show ?thesis by simp
    next
      case F: False
      with False show ?thesis by simp
    qed
  qed
  have finitems': "finite ?items'"
    using fin b1(3) by (auto split: if_splits)
  have mem: "(r, s') \<in> set (map ?upd ?popped) \<longleftrightarrow>
      (\<exists>s. (r, s) \<in> set (union_tbl st) \<and> r \<notin> ?rest \<and> s' = (if r = ?root then s \<union> ?items' else s))" for r s'
    by (auto simp: image_iff split: if_splits)
  have fsts: "map fst (map ?upd ?popped) = filter (\<lambda>r. r \<notin> ?rest) (map fst (union_tbl st))"
    by (induction "union_tbl st") (auto simp: filter_map comp_def case_prod_beta)
  have "table_inv ?st'"
    unfolding table_inv_def
  proof (intro conjI)
    show "distinct (map fst (union_tbl ?st'))"
      using dist fsts by simp
    show "\<forall>(r, s)\<in>set (union_tbl ?st'). s = {x. rootmap ?st' x = Some r} \<and> r < fresh ?st' \<and> finite s \<and> s \<noteq> {}"
    proof (clarify)
      fix r s' assume "(r, s') \<in> set (union_tbl ?st')"
      then obtain s where s: "(r, s) \<in> set (union_tbl st)" "r \<notin> ?rest"
        "s' = (if r = ?root then s \<union> ?items' else s)"
        using mem[of r s'] by auto
      note bs = b1[OF s(1)]
      have "s' = {x. rootmap ?st' x = Some r}"
      proof (cases "r = ?root")
        case True
        with s(3) bs(1) show ?thesis by auto
      next
        case False
        with s(2) have nr: "r \<notin> ?roots" by simp
        have "x \<notin> ?items'" if "rootmap st x = Some r" for x
          using that nr item_root[of x r] unfolding F1 by auto
        with False s(3) bs(1) show ?thesis by auto
      qed
      moreover have "finite s'" using s(3) bs(3) finitems' by simp
      moreover have "s' \<noteq> {}" using s(3) bs(4) by auto
      ultimately show "s' = {x. rootmap ?st' x = Some r} \<and> r < fresh ?st' \<and> finite s' \<and> s' \<noteq> {}"
        using bs(2) by simp
    qed
    show "\<forall>x r. rootmap ?st' x = Some r \<longrightarrow> r \<in> fst ` set (union_tbl ?st')"
    proof (intro allI impI)
      fix x r assume a: "rootmap ?st' x = Some r"
      have "\<exists>s'. (r, s') \<in> set (map ?upd ?popped)"
      proof (cases "x \<in> ?items'")
        case True
        with a have "r = ?root" by simp
        moreover from root_in sub obtain s where "(?root, s) \<in> set (union_tbl st)" by force
        ultimately show ?thesis unfolding mem by auto
      next
        case False
        with a have rx: "rootmap st x = Some r" by simp
        from b2[OF this] obtain s where s: "(r, s) \<in> set (union_tbl st)" by blast
        have "r \<notin> ?rest" using False rx unfolding F1 by auto
        with s show ?thesis unfolding mem by auto
      qed
      then show "r \<in> fst ` set (union_tbl ?st')" by force
    qed
  qed
  with step F2 root_in show ?thesis by (auto simp: fun_eq_iff)
qed

lemma edges_snoc: "edges (ps @ [(k, vs)]) = edges ps \<union> {k} \<times> vs"
  by (auto simp: edges_def)

lemma nodes_snoc: "nodes (ps @ [(k, vs)]) = nodes ps \<union> insert k vs"
  by (auto simp: nodes_def)

lemma edges_nodes: "(a, b) \<in> edges ps \<Longrightarrow> a \<in> nodes ps \<and> b \<in> nodes ps"
  by (force simp: edges_def nodes_def)

lemma linked_refl: "linked ps x x"
  by (simp add: linked_def)

lemma linked_sym: "linked ps x y \<Longrightarrow> linked ps y x"
proof -
  have "sym ((edges ps \<union> (edges ps)\<inverse>)\<^sup>*)"
    by (intro sym_rtrancl) (auto simp: sym_def)
  then show "linked ps x y \<Longrightarrow> linked ps y x"
    by (auto simp: linked_def sym_def)
qed

lemma linked_trans: "linked ps x y \<Longrightarrow> linked ps y z \<Longrightarrow> linked ps x z"
  by (auto simp: linked_def)

lemma linked_edge: "(a, b) \<in> edges ps \<Longrightarrow> linked ps a b"
  by (auto simp: linked_def)

lemma linked_mono: "linked ps x y \<Longrightarrow> linked (ps @ qs) x y"
proof -
  have "edges ps \<subseteq> edges (ps @ qs)" by (auto simp: edges_def)
  then have "(edges ps \<union> (edges ps)\<inverse>)\<^sup>* \<subseteq> (edges (ps @ qs) \<union> (edges (ps @ qs))\<inverse>)\<^sup>*"
    by (intro rtrancl_mono) auto
  then show "linked ps x y \<Longrightarrow> linked (ps @ qs) x y"
    by (auto simp: linked_def)
qed

lemma linked_same_root:
  assumes e: "\<forall>(a, b)\<in>edges ps. f a = f b" and c: "linked ps x y"
  shows "f x = f y"
proof -
  from c have "(x, y) \<in> (edges ps \<union> (edges ps)\<inverse>)\<^sup>*" by (simp add: linked_def)
  then show ?thesis
  proof (induction rule: rtrancl_induct)
    case base show ?case by simp
  next
    case (step y z)
    with e show ?case by fastforce
  qed
qed

lemma step_conn:
  assumes inv: "conn_inv st ps"
    and rm: "rootmap st' = (\<lambda>x. if touched st (k, vs) x then Some root else rootmap st x)"
    and old: "\<forall>x. rootmap st x = Some root \<longrightarrow> touched st (k, vs) x"
  shows "conn_inv st' (ps @ [(k, vs)])"
proof -
  let ?ps' = "ps @ [(k, vs)]"
  let ?items = "insert k vs"
  have dom: "dom (rootmap st) = nodes ps"
    and edge: "\<And>a b. (a, b) \<in> edges ps \<Longrightarrow> rootmap st a = rootmap st b"
    and conn: "\<And>x y r. rootmap st x = Some r \<Longrightarrow> rootmap st y = Some r \<Longrightarrow> linked ps x y"
    using inv by (auto simp: conn_inv_def)
  have t_item: "touched st (k, vs) x" if "x \<in> ?items" for x
    using that by (auto simp: touched_def)
  have t_dom: "touched st (k, vs) x \<longleftrightarrow> (\<exists>r\<in>roots_of st ?items. rootmap st x = Some r)"
    if "x \<in> nodes ps" for x
  proof -
    from that dom obtain r where r: "rootmap st x = Some r" by auto
    show ?thesis
    proof (cases "x \<in> ?items")
      case True
      with r have "r \<in> roots_of st ?items" by (auto simp: roots_of_iff)
      with r True show ?thesis by (auto simp: touched_def)
    next
      case False
      then show ?thesis by (auto simp: touched_def)
    qed
  qed
  have to_k: "linked ?ps' x k" if "touched st (k, vs) x" for x
  proof -
    have item_k: "linked ?ps' z k" if "z \<in> ?items" for z
    proof (cases "z = k")
      case True then show ?thesis by (simp add: linked_refl)
    next
      case False
      with that have "(k, z) \<in> edges ?ps'" by (simp add: edges_snoc)
      then show ?thesis by (rule linked_sym[OF linked_edge])
    qed
    from that have "x \<in> ?items \<or> (\<exists>r\<in>roots_of st ?items. rootmap st x = Some r)"
      by (simp only: touched_def fst_conv snd_conv)
    then show ?thesis
    proof (elim disjE bexE)
      assume "x \<in> ?items" then show ?thesis by (rule item_k)
    next
      fix r assume r: "r \<in> roots_of st ?items" "rootmap st x = Some r"
      from r(1) obtain z where z: "z \<in> ?items" "rootmap st z = Some r"
        unfolding roots_of_iff by blast
      from conn[OF r(2) z(2)] have "linked ?ps' x z" by (rule linked_mono)
      with item_k[OF z(1)] show ?thesis by (rule linked_trans[rotated])
    qed
  qed
  show ?thesis
    unfolding conn_inv_def
  proof (intro conjI)
    show "dom (rootmap st') = nodes ?ps'"
    proof (rule set_eqI)
      fix x
      show "x \<in> dom (rootmap st') \<longleftrightarrow> x \<in> nodes ?ps'"
      proof (cases "touched st (k, vs) x")
        case True
        then have "x \<in> ?items \<or> x \<in> dom (rootmap st)" by (auto simp: touched_def)
        with True dom show ?thesis by (auto simp: rm nodes_snoc)
      next
        case False
        with t_item[of x] have "x \<notin> ?items" by blast
        moreover have "x \<in> dom (rootmap st') \<longleftrightarrow> x \<in> dom (rootmap st)"
          using False by (simp add: rm dom_def)
        ultimately show ?thesis using dom by (simp add: nodes_snoc)
      qed
    qed
    show "\<forall>(a, b)\<in>edges ?ps'. rootmap st' a = rootmap st' b"
    proof (clarify)
      fix a b assume "(a, b) \<in> edges ?ps'"
      then consider "(a, b) \<in> edges ps" | "a = k" "b \<in> vs" by (auto simp: edges_snoc)
      then show "rootmap st' a = rootmap st' b"
      proof cases
        case 1
        from edges_nodes[OF 1] have n: "a \<in> nodes ps" "b \<in> nodes ps" by simp_all
        from edge[OF 1] have "touched st (k, vs) a \<longleftrightarrow> touched st (k, vs) b"
          unfolding t_dom[OF n(1)] t_dom[OF n(2)] by simp
        with edge[OF 1] show ?thesis by (simp add: rm)
      next
        case 2
        then show ?thesis using t_item[of a] t_item[of b] by (simp add: rm)
      qed
    qed
    show "\<forall>x y r. rootmap st' x = Some r \<and> rootmap st' y = Some r \<longrightarrow> linked ?ps' x y"
    proof (intro allI impI, elim conjE)
      fix x y r assume x: "rootmap st' x = Some r" and y: "rootmap st' y = Some r"
      show "linked ?ps' x y"
      proof (cases "r = root")
        case True
        have t: "touched st (k, vs) z" if z: "rootmap st' z = Some root" for z
        proof (rule ccontr)
          assume nt: "\<not> touched st (k, vs) z"
          then have "rootmap st' z = rootmap st z" by (simp add: rm)
          with z have "rootmap st z = Some root" by simp
          with old nt show False by blast
        qed
        from x y True have cx: "linked ?ps' x k" and cy: "linked ?ps' y k"
          by (auto intro: to_k t)
        from cx linked_sym[OF cy] show ?thesis by (rule linked_trans)
      next
        case False
        with x y have "rootmap st x = Some r" "rootmap st y = Some r"
          by (auto simp: rm split: if_splits)
        then have "linked ps x y" by (rule conn)
        then show ?thesis by (rule linked_mono)
      qed
    qed
  qed
qed

lemma step_inv:
  assumes "table_inv st" "conn_inv st ps" "finite vs" "good_pick pick"
  shows "\<exists>st'. separate_step pick st (k, vs) = Inr st' \<and> table_inv st' \<and> conn_inv st' (ps @ [(k, vs)])"
proof (cases "roots_of st (insert k vs) = {}")
  case True
  from step_fresh[OF assms(1) assms(3) True, of pick] obtain st' where
    st': "separate_step pick st (k, vs) = Inr st'"
      "rootmap st' = (\<lambda>x. if touched st (k, vs) x then Some (fresh st) else rootmap st x)"
      "\<forall>x. rootmap st x \<noteq> Some (fresh st)" "table_inv st'"
    by blast
  from st'(3) have "\<forall>x. rootmap st x = Some (fresh st) \<longrightarrow> touched st (k, vs) x" by simp
  from step_conn[OF assms(2) st'(2) this] st'(1,4) show ?thesis by blast
next
  case False
  from step_merge[OF assms(1) assms(3) assms(4) False] obtain st' where
    st': "separate_step pick st (k, vs) = Inr st'"
      "rootmap st' = (\<lambda>x. if touched st (k, vs) x then Some (pick (roots_of st (insert k vs))) else rootmap st x)"
      "pick (roots_of st (insert k vs)) \<in> roots_of st (insert k vs)" "table_inv st'"
    by blast
  from st'(3) have "\<forall>x. rootmap st x = Some (pick (roots_of st (insert k vs))) \<longrightarrow> touched st (k, vs) x"
    by (auto simp: touched_def)
  from step_conn[OF assms(2) st'(2) this] st'(1,4) show ?thesis by blast
qed

lemma loop_inv:
  assumes "good_pick pick"
  shows "table_inv st \<Longrightarrow> conn_inv st ps \<Longrightarrow> finite_refs kvs \<Longrightarrow>
         \<exists>st'. separate_loop pick st kvs = Inr st' \<and> table_inv st' \<and> conn_inv st' (ps @ kvs)"
proof (induction kvs arbitrary: st ps)
  case Nil
  then show ?case by simp
next
  case (Cons kv kvs)
  obtain k vs where kv: "kv = (k, vs)" by (cases kv)
  from Cons.prems(3) kv have fin: "finite vs" "finite_refs kvs" by (auto simp: finite_refs_def)
  from step_inv[OF Cons.prems(1,2) fin(1) assms, of k] obtain st1 where
    st1: "separate_step pick st (k, vs) = Inr st1" "table_inv st1" "conn_inv st1 (ps @ [(k, vs)])"
    by blast
  from Cons.IH[OF st1(2,3) fin(2)] obtain st' where
    "separate_loop pick st1 kvs = Inr st'" "table_inv st'" "conn_inv st' ((ps @ [(k, vs)]) @ kvs)"
    by blast
  with st1(1) kv show ?case by simp
qed

lemma loop_final:
  assumes "good_pick pick" "finite_refs refs"
  shows "\<exists>st. separate_loop pick \<lparr>rootmap = Map.empty, union_tbl = [], fresh = 0\<rparr> refs = Inr st \<and>
           table_inv st \<and> conn_inv st refs"
proof -
  let ?st0 = "\<lparr>rootmap = Map.empty, union_tbl = [], fresh = 0\<rparr> :: 'a separate_state"
  have "table_inv ?st0" by (simp add: table_inv_def)
  moreover have "conn_inv ?st0 []" by (simp add: conn_inv_def edges_def nodes_def)
  ultimately show ?thesis using loop_inv[OF assms(1), of ?st0 "[]" refs] assms(2) by simp
qed

lemma map_result_Inr:
  "(\<And>x. x \<in> set xs \<Longrightarrow> f x = Inr (g x)) \<Longrightarrow> map_result f xs = Inr (map g xs)"
  by (induction xs) simp_all

lemma map_result_Inl:
  assumes "x \<in> set xs" "f x = Inl KeyError"
    and "\<And>y e. y \<in> set xs \<Longrightarrow> f y = Inl e \<Longrightarrow> e = KeyError"
  shows "map_result f xs = Inl KeyError"
  using assms
proof (induction xs)
  case Nil
  then show ?case by simp
next
  case (Cons a xs)
  have err: "\<And>y e. y \<in> set xs \<Longrightarrow> f y = Inl e \<Longrightarrow> e = KeyError"
    using Cons.prems(3) by (meson list.set_intros(2))
  show ?case
  proof (cases "f a")
    case (Inl e)
    with Cons.prems(3)[of a e] show ?thesis by simp
  next
    case (Inr b)
    with Cons.prems(1,2) have "x \<in> set xs" by auto
    from Cons.IH[OF this Cons.prems(2) err] have "map_result f xs = Inl KeyError" .
    with Inr show ?thesis by simp
  qed
qed

lemma getitem_key: "k \<in> keys d \<Longrightarrow> getitem d k = Inr (the (map_of d k))"
  by (auto simp: getitem_def keys_def map_of_eq_None_iff split: option.splits)

lemma getitem_nokey: "k \<notin> keys d \<Longrightarrow> getitem d k = Inl KeyError"
  by (auto simp: getitem_def keys_def map_of_eq_None_iff[symmetric] split: option.splits)

lemma getitem_error: "getitem d k = Inl e \<Longrightarrow> e = KeyError"
  by (auto simp: getitem_def split: option.splits)

lemma materialize_ok:
  assumes "set (enum s) \<subseteq> keys refs"
  shows "materialize enum refs s = Inr (restrict_to enum refs s)"
  unfolding materialize_def restrict_to_def
  by (rule map_result_Inr) (use assms in \<open>auto simp: getitem_key\<close>)

lemma materialize_error: "materialize enum refs s = Inl e \<Longrightarrow> e = KeyError"
proof -
  have "map_result (\<lambda>key. case getitem refs key of Inl e \<Rightarrow> Inl e | Inr vals \<Rightarrow> Inr (key, vals)) xs = Inl e
        \<Longrightarrow> e = KeyError" for xs
    by (induction xs) (auto split: sum.splits dest: getitem_error)
  then show "materialize enum refs s = Inl e \<Longrightarrow> e = KeyError"
    by (simp add: materialize_def)
qed

lemma materialize_nokey:
  assumes "x \<in> set (enum s)" "x \<notin> keys refs"
  shows "materialize enum refs s = Inl KeyError"
  unfolding materialize_def
proof (rule map_result_Inl[OF assms(1)])
  show "(case getitem refs x of Inl e \<Rightarrow> Inl e | Inr vals \<Rightarrow> Inr (x, vals)) = Inl KeyError"
    using assms(2) by (simp add: getitem_nokey)
next
  fix y e
  assume "(case getitem refs y of Inl e \<Rightarrow> Inl e | Inr vals \<Rightarrow> Inr (y, vals)) = Inl e"
  then show "e = KeyError" by (auto split: sum.splits dest: getitem_error)
qed

lemma keys_restrict_to: "keys (restrict_to enum refs s) = set (enum s)"
  by (force simp: keys_def restrict_to_def)

lemma keys_subset_nodes: "keys refs \<subseteq> nodes refs"
  by (force simp: keys_def nodes_def)

lemma refs_closed_iff: "refs_closed refs \<longleftrightarrow> nodes refs \<subseteq> keys refs"
proof
  assume cl: "refs_closed refs"
  show "nodes refs \<subseteq> keys refs"
  proof
    fix x assume "x \<in> nodes refs"
    then obtain k vs where kv: "(k, vs) \<in> set refs" "x = k \<or> x \<in> vs"
      by (auto simp: nodes_def)
    from kv(1) have "k \<in> keys refs" by (force simp: keys_def)
    moreover from cl kv(1) have "vs \<subseteq> keys refs" by (auto simp: refs_closed_def)
    ultimately show "x \<in> keys refs" using kv(2) by blast
  qed
next
  assume sub: "nodes refs \<subseteq> keys refs"
  show "refs_closed refs"
    unfolding refs_closed_def
  proof (clarify)
    fix k vs v assume "(k, vs) \<in> set refs" "v \<in> vs"
    then have "v \<in> nodes refs" by (auto simp: nodes_def)
    with sub show "v \<in> keys refs" by blast
  qed
qed

lemma table_members:
  assumes "table_inv st"
  shows "(\<Union>(snd ` set (union_tbl st))) = dom (rootmap st)"
proof (rule set_eqI)
  fix x
  show "x \<in> \<Union>(snd ` set (union_tbl st)) \<longleftrightarrow> x \<in> dom (rootmap st)"
  proof
    assume "x \<in> \<Union>(snd ` set (union_tbl st))"
    then obtain r s where "(r, s) \<in> set (union_tbl st)" "x \<in> s" by auto
    with assms have "rootmap st x = Some r" by (auto simp: table_inv_def)
    then show "x \<in> dom (rootmap st)" by auto
  next
    assume "x \<in> dom (rootmap st)"
    then obtain r where r: "rootmap st x = Some r" by auto
    with assms obtain s where s: "(r, s) \<in> set (union_tbl st)" by (fastforce simp: table_inv_def)
    with assms r have "x \<in> s" by (auto simp: table_inv_def)
    with s show "x \<in> \<Union>(snd ` set (union_tbl st))" by force
  qed
qed

lemma table_distinct_sets:
  assumes "table_inv st"
  shows "distinct (map snd (union_tbl st))"
proof -
  have inj: "inj_on snd (set (union_tbl st))"
  proof (rule inj_onI)
    fix p q assume p: "p \<in> set (union_tbl st)" and q: "q \<in> set (union_tbl st)" and eq: "snd p = snd q"
    obtain r s where ps: "p = (r, s)" by (cases p)
    obtain r' s' where qs: "q = (r', s')" by (cases q)
    from assms p ps have s: "s = {x. rootmap st x = Some r}" "s \<noteq> {}" by (auto simp: table_inv_def)
    from assms q qs have s': "s' = {x. rootmap st x = Some r'}" by (auto simp: table_inv_def)
    from s(2) obtain x where x: "x \<in> s" by blast
    from x s(1) have 1: "rootmap st x = Some r" by blast
    from eq ps qs have "s = s'" by simp
    with x s' have 2: "rootmap st x = Some r'" by blast
    from 1 2 have "r = r'" by simp
    with eq ps qs show "p = q" by simp
  qed
  from assms have "distinct (map fst (union_tbl st))" by (simp add: table_inv_def)
  then have "distinct (union_tbl st)" by (rule distinct_map[THEN iffD1, THEN conjunct1])
  with inj show ?thesis by (simp add: distinct_map)
qed

lemma separate_closed_ok:
  assumes gp: "good_pick pick" and ge: "good_enum enum" and fin: "finite_refs refs" and cl: "refs_closed refs"
  shows "\<exists>st. table_inv st \<and> conn_inv st refs \<and>
           separate pick enum refs = Inr (map (restrict_to enum refs) (map snd (union_tbl st)))"
proof -
  from loop_final[OF gp fin] obtain st where
    st: "separate_loop pick \<lparr>rootmap = Map.empty, union_tbl = [], fresh = 0\<rparr> refs = Inr st"
      "table_inv st" "conn_inv st refs"
    by blast
  have "map_result (materialize enum refs) (map snd (union_tbl st))
        = Inr (map (restrict_to enum refs) (map snd (union_tbl st)))"
  proof (rule map_result_Inr)
    fix s assume s: "s \<in> set (map snd (union_tbl st))"
    then obtain r where rs: "(r, s) \<in> set (union_tbl st)" by auto
    with st(2) have fs: "finite s" by (auto simp: table_inv_def)
    from rs have "s \<subseteq> \<Union>(snd ` set (union_tbl st))" by force
    also have "\<dots> = dom (rootmap st)" by (rule table_members[OF st(2)])
    also have "\<dots> = nodes refs" using st(3) by (simp add: conn_inv_def)
    also have "\<dots> \<subseteq> keys refs" using cl by (simp only: refs_closed_iff)
    finally have sk: "s \<subseteq> keys refs" .
    from ge fs have "set (enum s) = s" by (simp add: good_enum_def)
    with sk have "set (enum s) \<subseteq> keys refs" by simp
    then show "materialize enum refs s = Inr (restrict_to enum refs s)" by (rule materialize_ok)
  qed
  with st(1) have "separate pick enum refs = Inr (map (restrict_to enum refs) (map snd (union_tbl st)))"
    by (simp add: separate_def)
  with st(2,3) show ?thesis by blast
qed

lemma separate_not_closed:
  assumes gp: "good_pick pick" and ge: "good_enum enum" and fin: "finite_refs refs" and ncl: "\<not> refs_closed refs"
  shows "separate pick enum refs = Inl KeyError"
proof -
  from loop_final[OF gp fin] obtain st where
    st: "separate_loop pick \<lparr>rootmap = Map.empty, union_tbl = [], fresh = 0\<rparr> refs = Inr st"
      "table_inv st" "conn_inv st refs"
    by blast
  from ncl obtain x where x: "x \<in> nodes refs" "x \<notin> keys refs" by (auto simp: refs_closed_iff)
  from x(1) st(3) have "x \<in> dom (rootmap st)" by (simp add: conn_inv_def)
  then have "x \<in> \<Union>(snd ` set (union_tbl st))" by (simp only: table_members[OF st(2)])
  then obtain s where s: "s \<in> set (map snd (union_tbl st))" "x \<in> s" by auto
  then have "finite s" using st(2) by (auto simp: table_inv_def)
  with ge s(2) have "x \<in> set (enum s)" by (simp add: good_enum_def)
  then have "materialize enum refs s = Inl KeyError" using x(2) by (rule materialize_nokey)
  with s(1) have "map_result (materialize enum refs) (map snd (union_tbl st)) = Inl KeyError"
    by (rule map_result_Inl) (rule materialize_error)
  with st(1) show ?thesis by (simp add: separate_def)
qed

lemma separate_classes:
  assumes gp: "good_pick pick" and ge: "good_enum enum" and fin: "finite_refs refs" and cl: "refs_closed refs"
  shows "\<exists>comps. separate pick enum refs = Inr comps \<and>
           distinct (map keys comps) \<and>
           \<Union>(keys ` set comps) = keys refs \<and>
           (\<forall>c\<in>set comps. keys c \<noteq> {} \<and> (\<forall>x\<in>keys c. keys c = {y. linked refs x y})) \<and>
           (\<forall>c\<in>set comps. distinct (map fst c) \<and> (\<forall>(k, vs)\<in>set c. map_of refs k = Some vs))"
proof -
  from separate_closed_ok[OF assms] obtain st where
    st: "table_inv st" "conn_inv st refs"
      "separate pick enum refs = Inr (map (restrict_to enum refs) (map snd (union_tbl st)))"
    by blast
  let ?comps = "map (restrict_to enum refs) (map snd (union_tbl st))"
  have tab: "s = {x. rootmap st x = Some r}" "finite s" "s \<noteq> {}" if "(r, s) \<in> set (union_tbl st)" for r s
    using st(1) that by (auto simp: table_inv_def)
  have en: "set (enum s) = s" "distinct (enum s)" if "(r, s) \<in> set (union_tbl st)" for r s
    using ge tab(2)[OF that] by (simp_all add: good_enum_def)
  have nk: "nodes refs = keys refs"
    using cl keys_subset_nodes[of refs] by (auto simp: refs_closed_iff)
  have keys_eq: "map keys ?comps = map snd (union_tbl st)"
    by (auto simp: keys_restrict_to en(1))
  have d: "distinct (map keys ?comps)"
    unfolding keys_eq by (rule table_distinct_sets[OF st(1)])
  have u: "\<Union>(keys ` set ?comps) = keys refs"
  proof -
    have "\<Union>(keys ` set ?comps) = \<Union>(set (map keys ?comps))" by simp
    also have "\<dots> = \<Union>(snd ` set (union_tbl st))" unfolding keys_eq by simp
    also have "\<dots> = dom (rootmap st)" by (rule table_members[OF st(1)])
    also have "\<dots> = keys refs" using st(2) nk by (simp add: conn_inv_def)
    finally show ?thesis .
  qed
  have c: "keys c \<noteq> {} \<and> (\<forall>x\<in>keys c. keys c = {y. linked refs x y})" if "c \<in> set ?comps" for c
  proof -
    from that obtain r s where rs: "(r, s) \<in> set (union_tbl st)" "c = restrict_to enum refs s" by auto
    then have kc: "keys c = s" by (simp add: keys_restrict_to en(1))
    have "s = {y. linked refs x y}" if x: "x \<in> s" for x
    proof (rule set_eqI, rule iffI)
      fix y assume "y \<in> s"
      with x tab(1)[OF rs(1)] have "rootmap st x = Some r" "rootmap st y = Some r" by auto
      with st(2) show "y \<in> {y. linked refs x y}" by (auto simp: conn_inv_def)
    next
      fix y assume "y \<in> {y. linked refs x y}"
      then have "linked refs x y" by simp
      moreover from st(2) have "\<forall>(a, b)\<in>edges refs. rootmap st a = rootmap st b"
        by (simp add: conn_inv_def)
      ultimately have "rootmap st x = rootmap st y" by (rule linked_same_root[rotated])
      with x tab(1)[OF rs(1)] show "y \<in> s" by auto
    qed
    with kc tab(3)[OF rs(1)] show ?thesis by simp
  qed
  have m: "distinct (map fst c) \<and> (\<forall>(k, vs)\<in>set c. map_of refs k = Some vs)" if "c \<in> set ?comps" for c
  proof -
    from that obtain r s where rs: "(r, s) \<in> set (union_tbl st)" "c = restrict_to enum refs s" by auto
    have "map fst c = enum s" unfolding rs(2) restrict_to_def by (simp add: comp_def)
    then have "distinct (map fst c)" using en(2)[OF rs(1)] by simp
    moreover have "map_of refs k = Some vs" if "(k, vs) \<in> set c" for k vs
    proof -
      from that rs(2) have k: "k \<in> set (enum s)" "vs = the (map_of refs k)"
        by (auto simp: restrict_to_def)
      from k(1) have "k \<in> keys c" by (simp add: rs(2) keys_restrict_to)
      with \<open>c \<in> set ?comps\<close> have "k \<in> \<Union>(keys ` set ?comps)" by blast
      then have "k \<in> keys refs" by (simp only: u)
      then show ?thesis using k(2) by (auto simp: keys_def map_of_eq_None_iff)
    qed
    ultimately show ?thesis by auto
  qed
  show ?thesis
  proof (intro exI conjI)
    show "separate pick enum refs = Inr ?comps" by (rule st(3))
    show "distinct (map keys ?comps)" by (rule d)
    show "\<Union>(keys ` set ?comps) = keys refs" by (rule u)
    show "\<forall>c\<in>set ?comps. keys c \<noteq> {} \<and> (\<forall>x\<in>keys c. keys c = {y. linked refs x y})"
      using c by blast
    show "\<forall>c\<in>set ?comps. distinct (map fst c) \<and> (\<forall>(k, vs)\<in>set c. map_of refs k = Some vs)"
      using m by blast
  qed
qed

lemma good_pick_Min: "good_pick Min"
  by (simp add: good_pick_def)

lemma good_enum_sorted_list_of_set: "good_enum (sorted_list_of_set :: 'a::linorder set \<Rightarrow> 'a list)"
  by (simp add: good_enum_def)

lemma keys_build_graph:
  assumes "good_enum enum" "finite garbage"
  shows "keys (build_graph enum referents garbage) = garbage"
proof -
  from assms have "set (enum garbage) = garbage" by (simp add: good_enum_def)
  then show ?thesis by (force simp: keys_def build_graph_def)
qed

lemma build_graph_closed:
  assumes "good_enum enum" "finite garbage"
  shows "refs_closed (build_graph enum referents garbage)"
  unfolding refs_closed_def keys_build_graph[OF assms]
  by (auto simp: build_graph_def)

lemma build_graph_finite:
  assumes "finite garbage"
  shows "finite_refs (build_graph enum referents garbage)"
  using assms by (auto simp: finite_refs_def build_graph_def)

section \<open>Claims about the component separator\<close>

text \<open>
  C10: \<open>separate\<close> returns exactly when every referent of the input mapping is one of its
  keys; otherwise the final comprehension \<open>refs[key]\<close> raises \<open>KeyError\<close>. The mapping built
  in \<open>__init__\<close> meets the precondition, because every referent set is intersected with the
  garbage set, whose members are the keys, so \<open>separate\<close> returns on it.
\<close>

theorem separate_total_iff_closed:
  assumes "good_pick pick" "good_enum enum" "finite_refs refs" "finite garbage"
  shows "((\<exists>comps. separate pick enum refs = Inr comps) \<longleftrightarrow> refs_closed refs) \<and>
         (separate pick enum refs = Inl KeyError \<longleftrightarrow> \<not> refs_closed refs) \<and>
         keys (build_graph enum referents garbage) = garbage \<and>
         refs_closed (build_graph enum referents garbage) \<and>
         (\<exists>comps. separate pick enum (build_graph enum referents garbage) = Inr comps)"
proof -
  have ok: "\<exists>comps. separate pick enum r = Inr comps" if "finite_refs r" "refs_closed r" for r :: "'a graph"
    using separate_closed_ok[OF assms(1,2) that] by blast
  have bad: "separate pick enum refs = Inl KeyError" if "\<not> refs_closed refs"
    using separate_not_closed[OF assms(1,2,3) that] .
  have 1: "(\<exists>comps. separate pick enum refs = Inr comps) \<longleftrightarrow> refs_closed refs"
    using ok[OF assms(3)] bad by fastforce
  have 2: "separate pick enum refs = Inl KeyError \<longleftrightarrow> \<not> refs_closed refs"
    using ok[OF assms(3)] bad by fastforce
  note 3 = keys_build_graph[OF assms(2,4), of referents]
  note 4 = build_graph_closed[OF assms(2,4), of referents]
  note 5 = ok[OF build_graph_finite[OF assms(4)] 4]
  from 1 2 3 4 5 show ?thesis by blast
qed

theorem separate_total_iff_closed_witness:
  "separate Min sorted_list_of_set [(1::nat, {2})] = Inl KeyError \<and>
   (\<exists>comps. separate Min sorted_list_of_set
      (build_graph sorted_list_of_set (\<lambda>x. [3 - x]) {1::nat, 2}) = Inr comps)"
proof -
  have "finite_refs [(1::nat, {2})]" by (simp add: finite_refs_def)
  moreover have "\<not> refs_closed [(1::nat, {2})]" by (simp add: refs_closed_def keys_def)
  moreover have "finite {1::nat, 2}" by simp
  ultimately show ?thesis
    using separate_total_iff_closed[OF good_pick_Min good_enum_sorted_list_of_set,
        of "[(1::nat, {2})]" "{1::nat, 2}" "\<lambda>x. [3 - x]"]
    by blast
qed

lemma separate_class_image:
  assumes "good_pick pick" "good_enum enum" "finite_refs refs" "refs_closed refs"
  shows "partition_of (separate pick enum refs) = Inr ((\<lambda>x. {y. linked refs x y}) ` keys refs)"
proof -
  from separate_classes[OF assms] obtain comps where
    c: "separate pick enum refs = Inr comps" "\<Union>(keys ` set comps) = keys refs"
      "\<forall>c\<in>set comps. keys c \<noteq> {} \<and> (\<forall>x\<in>keys c. keys c = {y. linked refs x y})"
    by blast
  have "keys ` set comps = (\<lambda>x. {y. linked refs x y}) ` keys refs"
  proof (rule set_eqI, rule iffI)
    fix s assume "s \<in> keys ` set comps"
    then obtain cy where cy: "cy \<in> set comps" "s = keys cy" by blast
    with c(3) obtain x where x: "x \<in> keys cy" by blast
    with c(3) cy have "s = {y. linked refs x y}" by blast
    moreover from x cy(1) c(2) have "x \<in> keys refs" by blast
    ultimately show "s \<in> (\<lambda>x. {y. linked refs x y}) ` keys refs" by blast
  next
    fix s assume "s \<in> (\<lambda>x. {y. linked refs x y}) ` keys refs"
    then obtain x where x: "x \<in> keys refs" "s = {y. linked refs x y}" by blast
    from x(1) c(2) obtain cy where cy: "cy \<in> set comps" "x \<in> keys cy" by blast
    with c(3) have "keys cy = {y. linked refs x y}" by blast
    with x(2) cy(1) show "s \<in> keys ` set comps" by blast
  qed
  with c(1) show ?thesis by (simp add: partition_of_def)
qed

lemma linked_cong:
  assumes "set refs' = set refs"
  shows "linked refs' x y = linked refs x y"
  using assms by (simp add: linked_def edges_def)

lemma good_pick_Max: "good_pick Max"
  by (simp add: good_pick_def)

text \<open>
  C1: on the mapping that \<open>__init__\<close> builds from the garbage set, \<open>separate\<close> returns a list
  of components whose key sets partition the garbage set: every node is a key of exactly
  one component (exactly one position of the list), no component has a foreign key, and
  two nodes are keys of a common component exactly when an undirected path of references
  between garbage objects joins them.
\<close>

theorem separate_partition:
  assumes "good_pick pick" "good_enum enum" "finite garbage"
  shows "\<exists>comps. separate pick enum (build_graph enum referents garbage) = Inr comps \<and>
           (\<forall>x\<in>garbage. \<exists>!i. i < length comps \<and> x \<in> keys (comps ! i)) \<and>
           (\<forall>c\<in>set comps. keys c \<subseteq> garbage) \<and>
           (\<forall>x\<in>garbage. \<forall>y\<in>garbage.
              (\<exists>c\<in>set comps. x \<in> keys c \<and> y \<in> keys c) \<longleftrightarrow>
              linked (build_graph enum referents garbage) x y)"
proof -
  let ?refs = "build_graph enum referents garbage"
  note k = keys_build_graph[OF assms(2,3), of referents]
  from separate_classes[OF assms(1,2) build_graph_finite[OF assms(3)] build_graph_closed[OF assms(2,3)],
      of referents]
  obtain comps where
    c: "separate pick enum ?refs = Inr comps" "distinct (map keys comps)"
      "\<Union>(keys ` set comps) = garbage"
      "\<forall>c\<in>set comps. keys c \<noteq> {} \<and> (\<forall>x\<in>keys c. keys c = {y. linked ?refs x y})"
    unfolding k by blast
  have cls: "keys cy = {y. linked ?refs x y}" if "cy \<in> set comps" "x \<in> keys cy" for cy x
    using c(4) that by blast
  have ex: "\<exists>cy\<in>set comps. x \<in> keys cy" if "x \<in> garbage" for x
    using c(3) that by blast
  have one: "\<exists>!i. i < length comps \<and> x \<in> keys (comps ! i)" if x: "x \<in> garbage" for x
  proof (rule ex_ex1I)
    from ex[OF x] obtain cy where cy: "cy \<in> set comps" "x \<in> keys cy" by blast
    from cy(1) obtain i where "i < length comps" "comps ! i = cy" by (auto simp: in_set_conv_nth)
    with cy(2) show "\<exists>i. i < length comps \<and> x \<in> keys (comps ! i)" by blast
  next
    fix i j assume i: "i < length comps \<and> x \<in> keys (comps ! i)"
      and j: "j < length comps \<and> x \<in> keys (comps ! j)"
    from i have "keys (comps ! i) = {y. linked ?refs x y}" by (intro cls) auto
    moreover from j have "keys (comps ! j) = {y. linked ?refs x y}" by (intro cls) auto
    ultimately have e: "map keys comps ! i = map keys comps ! j" using i j by simp
    have li: "i < length (map keys comps)" and lj: "j < length (map keys comps)"
      using i j by simp_all
    from nth_eq_iff_index_eq[OF c(2) li lj] e show "i = j" by blast
  qed
  have sub: "keys cy \<subseteq> garbage" if "cy \<in> set comps" for cy
    using c(3) that by blast
  have same: "(\<exists>cy\<in>set comps. x \<in> keys cy \<and> y \<in> keys cy) \<longleftrightarrow> linked ?refs x y"
    if x: "x \<in> garbage" for x y
  proof
    assume "\<exists>cy\<in>set comps. x \<in> keys cy \<and> y \<in> keys cy"
    then obtain cy where cy: "cy \<in> set comps" "x \<in> keys cy" "y \<in> keys cy" by blast
    from cls[OF cy(1,2)] cy(3) show "linked ?refs x y" by blast
  next
    assume l: "linked ?refs x y"
    from ex[OF x] obtain cy where cy: "cy \<in> set comps" "x \<in> keys cy" by blast
    from cls[OF cy] l have "y \<in> keys cy" by blast
    with cy show "\<exists>cy\<in>set comps. x \<in> keys cy \<and> y \<in> keys cy" by blast
  qed
  show ?thesis
  proof (intro exI conjI ballI)
    show "separate pick enum ?refs = Inr comps" by (rule c(1))
  next
    fix x assume "x \<in> garbage"
    then show "\<exists>!i. i < length comps \<and> x \<in> keys (comps ! i)" by (rule one)
  next
    fix cy assume "cy \<in> set comps"
    then show "keys cy \<subseteq> garbage" by (rule sub)
  next
    fix x y assume "x \<in> garbage"
    then show "(\<exists>c\<in>set comps. x \<in> keys c \<and> y \<in> keys c) \<longleftrightarrow> linked ?refs x y" by (rule same)
  qed
qed

theorem separate_partition_witness:
  "\<exists>comps. separate Min sorted_list_of_set
       (build_graph sorted_list_of_set (\<lambda>x. if x = 1 then [2, 9] else if x = 2 then [1] else []) {1::nat, 2, 3}) = Inr comps \<and>
     (\<exists>!i. i < length comps \<and> 3 \<in> keys (comps ! i)) \<and>
     ((\<exists>c\<in>set comps. 1 \<in> keys c \<and> 2 \<in> keys c) \<longleftrightarrow>
        linked (build_graph sorted_list_of_set (\<lambda>x. if x = 1 then [2, 9] else if x = 2 then [1] else []) {1::nat, 2, 3}) 1 2)"
proof -
  let ?f = "\<lambda>x::nat. if x = 1 then [2, 9] else if x = 2 then [1] else []"
  have fin: "finite {1::nat, 2, 3}" by simp
  from separate_partition[OF good_pick_Min good_enum_sorted_list_of_set fin, of ?f]
  obtain comps where
    c: "separate Min sorted_list_of_set (build_graph sorted_list_of_set ?f {1, 2, 3}) = Inr comps"
      "\<forall>x\<in>{1::nat, 2, 3}. \<exists>!i. i < length comps \<and> x \<in> keys (comps ! i)"
      "\<forall>x\<in>{1::nat, 2, 3}. \<forall>y\<in>{1, 2, 3}.
          (\<exists>c\<in>set comps. x \<in> keys c \<and> y \<in> keys c) \<longleftrightarrow>
          linked (build_graph sorted_list_of_set ?f {1, 2, 3}) x y"
    by blast
  from c(2) have "\<exists>!i. i < length comps \<and> 3 \<in> keys (comps ! i)" by simp
  moreover from c(3) have "(\<exists>c\<in>set comps. 1 \<in> keys c \<and> 2 \<in> keys c) \<longleftrightarrow>
      linked (build_graph sorted_list_of_set ?f {1, 2, 3}) 1 2" by simp
  ultimately show ?thesis using c(1) by blast
qed

text \<open>
  C7: the partition does not depend on the order in which the entries of the mapping are
  visited, nor on which root \<open>set.pop()\<close> returns, nor on the order in which a set is
  iterated: two runs on permutations of the same entries return the same set of key sets
  (or both raise \<open>KeyError\<close>, when a referent is not a key).
\<close>

theorem separate_order_independent:
  assumes "good_pick pick" "good_pick pick'" "good_enum enum" "good_enum enum'"
    and "finite_refs refs" "mset refs' = mset refs"
  shows "partition_of (separate pick' enum' refs') = partition_of (separate pick enum refs)"
proof -
  from assms(6) have s: "set refs' = set refs" by (rule mset_eq_setD)
  then have fin': "finite_refs refs'" using assms(5) by (simp add: finite_refs_def)
  from s have k: "keys refs' = keys refs" by (simp add: keys_def)
  from s k have cl: "refs_closed refs' \<longleftrightarrow> refs_closed refs" by (simp add: refs_closed_def)
  show ?thesis
  proof (cases "refs_closed refs")
    case True
    with cl have cl': "refs_closed refs'" by simp
    have "linked refs' = linked refs"
      by (intro ext) (rule linked_cong[OF s])
    with separate_class_image[OF assms(1,3,5) True] separate_class_image[OF assms(2,4) fin' cl'] k
    show ?thesis by simp
  next
    case False
    with cl have ncl': "\<not> refs_closed refs'" by simp
    from separate_not_closed[OF assms(1,3,5) False] separate_not_closed[OF assms(2,4) fin' ncl']
    show ?thesis by simp
  qed
qed

theorem separate_order_independent_witness:
  "partition_of (separate Max (rev \<circ> sorted_list_of_set) [(3::nat, {}), (2, {1}), (1, {2})]) =
   partition_of (separate Min sorted_list_of_set [(1, {2}), (2, {1}), (3, {})])"
proof -
  have ge: "good_enum (rev \<circ> (sorted_list_of_set :: nat set \<Rightarrow> nat list))"
    by (simp add: good_enum_def)
  have fin: "finite_refs [(1::nat, {2}), (2, {1}), (3, {})]" by (simp add: finite_refs_def)
  have perm: "mset [(3::nat, {}), (2, {1::nat}), (1, {2})] = mset [(1, {2}), (2, {1}), (3, {})]"
    by simp
  show ?thesis
    by (rule separate_order_independent[OF good_pick_Min good_pick_Max good_enum_sorted_list_of_set ge fin perm])
qed

section \<open>Claims about the cycle simplifier\<close>

lemma getitem_map_of: "getitem d k = Inr v \<longleftrightarrow> map_of d k = Some v"
  by (simp add: getitem_def split: option.splits)

lemma map_fst_setitem: "k \<in> keys d \<Longrightarrow> map fst (setitem d k v) = map fst d"
  by (auto simp: setitem_def case_prod_beta)

lemma keys_setitem: "keys (setitem d k v) = insert k (keys d)"
  by (force simp: setitem_def keys_def split: if_splits)

lemma map_of_update_entries:
  "map_of (map (\<lambda>(k', v'). if k' = k then (k', v) else (k', v')) d) x =
     (if x = k then (if k \<in> fst ` set d then Some v else None) else map_of d x)"
proof (induction d)
  case Nil
  then show ?case by simp
next
  case (Cons p d)
  obtain a b where p: "p = (a, b)" by (cases p)
  show ?case
  proof (cases "a = k")
    case True
    then show ?thesis using Cons.IH by (simp add: p)
  next
    case False
    then show ?thesis using Cons.IH by (cases "x = k") (simp_all add: p)
  qed
qed

lemma map_of_setitem: "map_of (setitem d k v) = (map_of d)(k \<mapsto> v)"
proof (cases "k \<in> keys d")
  case True
  then show ?thesis
    by (simp add: setitem_def keys_def fun_eq_iff map_of_update_entries)
next
  case False
  then have "map_of d k = None" by (simp add: keys_def map_of_eq_None_iff)
  with False show ?thesis by (auto simp: setitem_def fun_eq_iff map_add_def split: option.splits)
qed

lemma key_iff_map_of: "k \<in> keys d \<longleftrightarrow> (\<exists>v. map_of d k = Some v)"
proof (cases "map_of d k")
  case None
  then show ?thesis by (simp add: keys_def map_of_eq_None_iff)
next
  case (Some v)
  then have "(k, v) \<in> set d" by (rule map_of_SomeD)
  then have "k \<in> keys d" by (force simp: keys_def)
  with Some show ?thesis by simp
qed

lemma set_setitem: "set (setitem d k v) \<subseteq> insert (k, v) (set d)"
  by (auto simp: setitem_def split: if_splits)

lemma collapse_step_effect:
  assumes "dict_of A = Some S" "map_of cycle A = Some own" "map_of cycle S = Some theirs"
  shows "(S \<in> own \<and> \<not> (\<exists>(B, refs)\<in>set cycle. B \<noteq> A \<and> S \<in> refs) \<longrightarrow>
            collapse_step dict_of cycle A = Inr (setitem (setitem cycle A (own - {S} \<union> theirs)) S {}) \<and>
            map_of (setitem (setitem cycle A (own - {S} \<union> theirs)) S {}) S = Some {} \<and>
            (S \<noteq> A \<longrightarrow> map_of (setitem (setitem cycle A (own - {S} \<union> theirs)) S {}) A
                         = Some (own - {S} \<union> theirs)) \<and>
            (\<forall>B. B \<noteq> A \<and> B \<noteq> S \<longrightarrow>
               map_of (setitem (setitem cycle A (own - {S} \<union> theirs)) S {}) B = map_of cycle B)) \<and>
         ((\<exists>(B, refs)\<in>set cycle. B \<noteq> A \<and> S \<in> refs) \<longrightarrow> collapse_step dict_of cycle A = Inr cycle)"
proof (intro conjI impI)
  assume a: "S \<in> own \<and> \<not> (\<exists>(B, refs)\<in>set cycle. B \<noteq> A \<and> S \<in> refs)"
  have gA: "getitem cycle A = Inr own" and gS: "getitem cycle S = Inr theirs"
    using assms(2,3) by (simp_all add: getitem_map_of)
  show "collapse_step dict_of cycle A = Inr (setitem (setitem cycle A (own - {S} \<union> theirs)) S {})"
    using a assms(1) gA gS by (simp add: collapse_step_def Un_commute)
next
  show "map_of (setitem (setitem cycle A (own - {S} \<union> theirs)) S {}) S = Some {}"
    by (simp add: map_of_setitem)
next
  assume "S \<noteq> A"
  then show "map_of (setitem (setitem cycle A (own - {S} \<union> theirs)) S {}) A = Some (own - {S} \<union> theirs)"
    by (simp add: map_of_setitem)
next
  show "\<forall>B. B \<noteq> A \<and> B \<noteq> S \<longrightarrow>
          map_of (setitem (setitem cycle A (own - {S} \<union> theirs)) S {}) B = map_of cycle B"
    by (simp add: map_of_setitem)
next
  assume "\<exists>(B, refs)\<in>set cycle. B \<noteq> A \<and> S \<in> refs"
  then show "collapse_step dict_of cycle A = Inr cycle"
    using assms(1,2) by (simp add: collapse_step_def getitem_def)
qed

lemma collapse_step_total:
  assumes cl: "refs_closed c" and A: "A \<in> keys c"
  shows "\<exists>c'. collapse_step dict_of c A = Inr c' \<and> refs_closed c' \<and> map fst c' = map fst c"
proof (cases "dict_of A")
  case None
  with cl show ?thesis by (simp add: collapse_step_def)
next
  case (Some S)
  from A obtain own where own: "map_of c A = Some own" by (auto simp: key_iff_map_of)
  then have gA: "getitem c A = Inr own" by (simp add: getitem_map_of)
  from own have inA: "(A, own) \<in> set c" by (rule map_of_SomeD)
  with cl have own_sub: "own \<subseteq> keys c" by (auto simp: refs_closed_def)
  show ?thesis
  proof (cases "S \<in> own \<and> \<not> (\<exists>(B, refs)\<in>set c. B \<noteq> A \<and> S \<in> refs)")
    case False
    with Some gA cl show ?thesis by (auto simp: collapse_step_def)
  next
    case True
    with own_sub have kS: "S \<in> keys c" by blast
    then obtain theirs where theirs: "map_of c S = Some theirs" by (auto simp: key_iff_map_of)
    then have "(S, theirs) \<in> set c" by (rule map_of_SomeD)
    with cl have theirs_sub: "theirs \<subseteq> keys c" by (auto simp: refs_closed_def)
    let ?c1 = "setitem c A (own - {S} \<union> theirs)"
    let ?c2 = "setitem ?c1 S {}"
    from collapse_step_effect[of dict_of A S c own theirs, OF Some own theirs] True
    have step: "collapse_step dict_of c A = Inr ?c2" by blast
    have kS1: "S \<in> keys ?c1" using kS by (simp add: keys_setitem)
    have order: "map fst ?c2 = map fst c"
      by (simp add: map_fst_setitem[OF kS1] map_fst_setitem[OF A])
    then have k2: "keys ?c2 = keys c" by (metis keys_def set_map)
    have "refs_closed ?c2"
      unfolding refs_closed_def k2
    proof (clarify)
      fix k vs v assume kv: "(k, vs) \<in> set ?c2" and v: "v \<in> vs"
      from kv set_setitem[of ?c1 S "{}"] have "(k, vs) = (S, {}) \<or> (k, vs) \<in> set ?c1" by blast
      with v have "(k, vs) \<in> set ?c1" by auto
      with set_setitem[of c A "own - {S} \<union> theirs"]
      have "(k, vs) = (A, own - {S} \<union> theirs) \<or> (k, vs) \<in> set c" by blast
      then show "v \<in> keys c"
      proof
        assume "(k, vs) = (A, own - {S} \<union> theirs)"
        with v own_sub theirs_sub show ?thesis by auto
      next
        assume "(k, vs) \<in> set c"
        with cl v show ?thesis by (auto simp: refs_closed_def)
      qed
    qed
    with step order show ?thesis by blast
  qed
qed

lemma collapse_loop_total:
  "refs_closed c \<Longrightarrow> set items \<subseteq> keys c \<Longrightarrow>
   \<exists>c'. collapse_loop dict_of c items = Inr c' \<and> refs_closed c' \<and> map fst c' = map fst c"
proof (induction items arbitrary: c)
  case Nil
  then show ?case by simp
next
  case (Cons A items)
  from Cons.prems have A: "A \<in> keys c" by simp
  from collapse_step_total[OF Cons.prems(1) A] obtain c1 where
    c1: "collapse_step dict_of c A = Inr c1" "refs_closed c1" "map fst c1 = map fst c"
    by blast
  from c1(3) have "keys c1 = keys c" by (metis keys_def set_map)
  with Cons.prems(2) have "set items \<subseteq> keys c1" by simp
  from Cons.IH[OF c1(2) this] obtain c' where
    "collapse_loop dict_of c1 items = Inr c'" "refs_closed c'" "map fst c' = map fst c1"
    by blast
  with c1 show ?case by simp
qed

lemma collapse_loop_append:
  "collapse_loop dict_of c (xs @ ys) =
     (case collapse_loop dict_of c xs of Inl e \<Rightarrow> Inl e | Inr c' \<Rightarrow> collapse_loop dict_of c' ys)"
  by (induction xs arbitrary: c) (simp_all split: sum.splits)

lemma keys_relabel: "keys (relabel f cycle) = keys cycle"
  by (force simp: keys_def relabel_def)

lemma map_fst_relabel: "map fst (relabel f cycle) = map fst cycle"
  by (simp add: relabel_def case_prod_beta comp_def)

lemma map_of_relabel: "map_of (relabel f cycle) x = (if x \<in> keys cycle then Some (f x) else None)"
proof (induction cycle)
  case Nil
  then show ?case by (simp add: relabel_def keys_def)
next
  case (Cons p cycle)
  obtain a b where p: "p = (a, b)" by (cases p)
  from Cons show ?case by (auto simp: relabel_def keys_def p)
qed

lemma getitem_relabel: "x \<in> keys cycle \<Longrightarrow> getitem (relabel f cycle) x = Inr (f x)"
  by (simp add: getitem_def map_of_relabel)

lemma relabel_cong: "(\<And>x. x \<in> keys cycle \<Longrightarrow> f x = g x) \<Longrightarrow> relabel f cycle = relabel g cycle"
proof -
  assume eq: "\<And>x. x \<in> keys cycle \<Longrightarrow> f x = g x"
  have "map (\<lambda>(x, refs). (x, f x)) cycle = map (\<lambda>(x, refs). (x, g x)) cycle"
  proof (rule map_cong[OF refl])
    fix p assume p: "p \<in> set cycle"
    obtain B refs where br: "p = (B, refs)" by (cases p)
    with p have "B \<in> keys cycle" by (force simp: keys_def)
    from eq[OF this] br show "(case p of (x, refs) \<Rightarrow> (x, f x)) = (case p of (x, refs) \<Rightarrow> (x, g x))"
      by simp
  qed
  then show ?thesis by (simp add: relabel_def)
qed

lemma setitem_relabel:
  assumes "k \<in> keys cycle"
  shows "setitem (relabel f cycle) k v = relabel (f(k := v)) cycle"
proof -
  have "map (\<lambda>(k', v'). if k' = k then (k', v) else (k', v')) (relabel f cycle) = relabel (f(k := v)) cycle"
    unfolding relabel_def by (induction cycle) auto
  with assms show ?thesis by (simp add: setitem_def keys_relabel)
qed

lemma Bex_relabel:
  "(\<exists>(B, refs)\<in>set (relabel f cycle). Q B refs) \<longleftrightarrow> (\<exists>B\<in>keys cycle. Q B (f B))"
  by (force simp: relabel_def keys_def)

lemma edge_set_entry:
  "distinct (map fst cycle) \<Longrightarrow> (B, refs) \<in> set cycle \<Longrightarrow> edge_set cycle B = refs"
  by (simp add: edge_set_def)

lemma Bex_edge_set:
  assumes "distinct (map fst cycle)"
  shows "(\<exists>(B, refs)\<in>set cycle. Q B refs) \<longleftrightarrow> (\<exists>B\<in>keys cycle. Q B (edge_set cycle B))"
proof
  assume "\<exists>(B, refs)\<in>set cycle. Q B refs"
  then obtain B refs where b: "(B, refs) \<in> set cycle" "Q B refs" by blast
  from edge_set_entry[OF assms b(1)] b(2) have "Q B (edge_set cycle B)" by simp
  moreover from b(1) have "B \<in> keys cycle" by (force simp: keys_def)
  ultimately show "\<exists>B\<in>keys cycle. Q B (edge_set cycle B)" by blast
next
  assume "\<exists>B\<in>keys cycle. Q B (edge_set cycle B)"
  then obtain B where b: "B \<in> keys cycle" "Q B (edge_set cycle B)" by blast
  from b(1) obtain refs where r: "(B, refs) \<in> set cycle" by (auto simp: keys_def)
  from edge_set_entry[OF assms r] b(2) have "Q B refs" by simp
  with r show "\<exists>(B, refs)\<in>set cycle. Q B refs" by blast
qed

lemma relabel_edge_set: "distinct (map fst cycle) \<Longrightarrow> relabel (edge_set cycle) cycle = cycle"
proof -
  assume d: "distinct (map fst cycle)"
  have "map (\<lambda>(x, refs). (x, edge_set cycle x)) cycle = map (\<lambda>p. p) cycle"
  proof (rule map_cong[OF refl])
    fix p assume p: "p \<in> set cycle"
    obtain B refs where br: "p = (B, refs)" by (cases p)
    with p edge_set_entry[OF d, of B refs] show "(case p of (x, refs) \<Rightarrow> (x, edge_set cycle x)) = p"
      by simp
  qed
  then show ?thesis by (simp add: relabel_def)
qed

lemma edge_set_nonkey: "x \<notin> keys cycle \<Longrightarrow> edge_set cycle x = {}"
  by (simp add: edge_set_def keys_def map_of_eq_None_iff[symmetric] split: option.splits)

lemma edge_set_sub: "refs_closed cycle \<Longrightarrow> edge_set cycle x \<subseteq> keys cycle"
proof (cases "map_of cycle x")
  case None
  then show ?thesis by (simp add: edge_set_def)
next
  case (Some refs)
  assume cl: "refs_closed cycle"
  from Some have "(x, refs) \<in> set cycle" by (rule map_of_SomeD)
  with cl have "refs \<subseteq> keys cycle" by (auto simp: refs_closed_def)
  with Some show ?thesis by (simp add: edge_set_def)
qed

lemma sole_owner_iff:
  assumes "distinct (map fst cycle)"
  shows "sole_owner dict_of cycle A S \<longleftrightarrow>
           dict_of A = Some S \<and> A \<in> keys cycle \<and> S \<in> edge_set cycle A \<and>
           (\<forall>B\<in>keys cycle. B \<noteq> A \<longrightarrow> S \<notin> edge_set cycle B)"
  unfolding sole_owner_def Bex_edge_set[OF assms, of "\<lambda>B refs. B \<noteq> A \<and> S \<in> refs"] by blast

lemma partial_edges_Some:
  "dict_of x = Some S \<Longrightarrow>
   partial_edges dict_of cycle visited x =
     (if x \<in> set visited \<and> sole_owner dict_of cycle x S
      then edge_set cycle x - {S} \<union> edge_set cycle S else edge_set cycle x)"
  by (simp add: partial_edges_def)

lemma partial_edges_None:
  "dict_of x = None \<Longrightarrow>
   partial_edges dict_of cycle visited x =
     (if \<exists>A\<in>set visited. sole_owner dict_of cycle A x then {} else edge_set cycle x)"
  by (simp add: partial_edges_def)

lemma other_reference_iff:
  assumes d: "distinct (map fst cycle)"
    and nest: "\<forall>x S. dict_of x = Some S \<longrightarrow> dict_of S = None"
    and A: "A \<notin> set visited" "dict_of A = Some S" "A \<in> keys cycle" "S \<in> edge_set cycle A"
  shows "(\<exists>B\<in>keys cycle. B \<noteq> A \<and> S \<in> partial_edges dict_of cycle visited B) \<longleftrightarrow>
         (\<exists>B\<in>keys cycle. B \<noteq> A \<and> S \<in> edge_set cycle B)"
proof
  assume "\<exists>B\<in>keys cycle. B \<noteq> A \<and> S \<in> partial_edges dict_of cycle visited B"
  then obtain B where B: "B \<in> keys cycle" "B \<noteq> A" "S \<in> partial_edges dict_of cycle visited B"
    by blast
  show "\<exists>B\<in>keys cycle. B \<noteq> A \<and> S \<in> edge_set cycle B"
  proof (cases "dict_of B")
    case None
    with B(3) have "S \<in> edge_set cycle B"
      by (simp add: partial_edges_None split: if_splits)
    with B(1,2) show ?thesis by blast
  next
    case (Some SB)
    with B(3) have "S \<in> edge_set cycle B \<or> S \<in> edge_set cycle SB"
      by (auto simp: partial_edges_Some split: if_splits)
    then show ?thesis
    proof
      assume "S \<in> edge_set cycle B"
      with B(1,2) show ?thesis by blast
    next
      assume s: "S \<in> edge_set cycle SB"
      then have "SB \<in> keys cycle" using edge_set_nonkey[of SB cycle] by auto
      moreover from nest Some have "dict_of SB = None" by blast
      with A(2) have "SB \<noteq> A" by auto
      ultimately show ?thesis using s by blast
    qed
  qed
next
  assume "\<exists>B\<in>keys cycle. B \<noteq> A \<and> S \<in> edge_set cycle B"
  then obtain B where B: "B \<in> keys cycle" "B \<noteq> A" "S \<in> edge_set cycle B" by blast
  show "\<exists>B\<in>keys cycle. B \<noteq> A \<and> S \<in> partial_edges dict_of cycle visited B"
  proof (cases "dict_of B")
    case None
    show ?thesis
    proof (cases "\<exists>A'\<in>set visited. sole_owner dict_of cycle A' B")
      case False
      with None B(3) have "S \<in> partial_edges dict_of cycle visited B"
        by (simp add: partial_edges_None)
      with B(1,2) show ?thesis by blast
    next
      case True
      then obtain A' where A': "A' \<in> set visited" "sole_owner dict_of cycle A' B" by blast
      from A'(2) have dA': "dict_of A' = Some B" and kA': "A' \<in> keys cycle"
        by (simp_all add: sole_owner_def)
      from A'(1) A(1) have "A' \<noteq> A" by auto
      moreover from dA' A' B(3) have "S \<in> partial_edges dict_of cycle visited A'"
        by (simp add: partial_edges_Some)
      ultimately show ?thesis using kA' by blast
    qed
  next
    case (Some SB)
    show ?thesis
    proof (cases "B \<in> set visited \<and> sole_owner dict_of cycle B SB")
      case False
      with Some B(3) have "S \<in> partial_edges dict_of cycle visited B"
        by (auto simp: partial_edges_Some)
      with B(1,2) show ?thesis by blast
    next
      case True
      have "S \<noteq> SB"
      proof
        assume "S = SB"
        with True have "sole_owner dict_of cycle B S" by simp
        then have "\<forall>B'\<in>keys cycle. B' \<noteq> B \<longrightarrow> S \<notin> edge_set cycle B'"
          by (simp add: sole_owner_iff[OF d])
        then have "A \<noteq> B \<longrightarrow> S \<notin> edge_set cycle A" using A(3) by (rule bspec)
        with A(4) B(2) show False by simp
      qed
      with True Some B(3) have "S \<in> partial_edges dict_of cycle visited B"
        by (simp add: partial_edges_Some)
      with B(1,2) show ?thesis by blast
    qed
  qed
qed

lemma collapse_step_skip:
  "dict_of A = Some S \<Longrightarrow> getitem c A = Inr own \<Longrightarrow>
   \<not> (S \<in> own \<and> \<not> (\<exists>(B, refs)\<in>set c. B \<noteq> A \<and> S \<in> refs)) \<Longrightarrow>
   collapse_step dict_of c A = Inr c"
  by (auto simp: collapse_step_def)

lemma collapse_step_merge:
  "dict_of A = Some S \<Longrightarrow> getitem c A = Inr own \<Longrightarrow> getitem c S = Inr theirs \<Longrightarrow>
   S \<in> own \<and> \<not> (\<exists>(B, refs)\<in>set c. B \<noteq> A \<and> S \<in> refs) \<Longrightarrow>
   collapse_step dict_of c A = Inr (setitem (setitem c A (theirs \<union> (own - {S}))) S {})"
  by (simp add: collapse_step_def)

lemma collapse_step_partial:
  assumes d: "distinct (map fst cycle)" and cl: "refs_closed cycle"
    and nest: "\<forall>x S. dict_of x = Some S \<longrightarrow> dict_of S = None"
    and A: "A \<notin> set visited" "A \<in> keys cycle"
  shows "collapse_step dict_of (relabel (partial_edges dict_of cycle visited) cycle) A =
           Inr (relabel (partial_edges dict_of cycle (visited @ [A])) cycle)"
proof (cases "dict_of A")
  case None
  have "partial_edges dict_of cycle visited x = partial_edges dict_of cycle (visited @ [A]) x" for x
  proof (cases "dict_of x")
    case N: None
    have "\<not> sole_owner dict_of cycle A x" using None by (simp add: sole_owner_def)
    then show ?thesis using N by (simp add: partial_edges_None)
  next
    case (Some Sx)
    with None have "x \<noteq> A" by auto
    with Some show ?thesis by (simp add: partial_edges_Some)
  qed
  then have "relabel (partial_edges dict_of cycle visited) cycle
      = relabel (partial_edges dict_of cycle (visited @ [A])) cycle"
    by (intro relabel_cong)
  with None show ?thesis by (simp add: collapse_step_def)
next
  case (Some S)
  let ?P = "partial_edges dict_of cycle visited"
  let ?P' = "partial_edges dict_of cycle (visited @ [A])"
  let ?c = "relabel ?P cycle"
  let ?e = "edge_set cycle"
  from nest Some have dS: "dict_of S = None" by blast
  with Some have SA: "S \<noteq> A" by auto
  have PA: "?P A = ?e A" using Some A(1) by (simp add: partial_edges_Some)
  have gA: "getitem ?c A = Inr (?e A)" using A(2) by (simp add: getitem_relabel PA)
  have bex: "(\<exists>(B, refs)\<in>set ?c. B \<noteq> A \<and> S \<in> refs) \<longleftrightarrow> (\<exists>B\<in>keys cycle. B \<noteq> A \<and> S \<in> ?P B)"
    by (rule Bex_relabel)
  have cond: "(S \<in> ?e A \<and> \<not> (\<exists>(B, refs)\<in>set ?c. B \<noteq> A \<and> S \<in> refs)) \<longleftrightarrow> sole_owner dict_of cycle A S"
  proof (cases "S \<in> ?e A")
    case False
    then show ?thesis by (simp add: sole_owner_def)
  next
    case True
    from other_reference_iff[OF d nest A(1) Some A(2) True]
    show ?thesis
      unfolding bex sole_owner_iff[OF d] using True Some A(2) by blast
  qed
  show ?thesis
  proof (cases "sole_owner dict_of cycle A S")
    case False
    have "?P x = ?P' x" for x
    proof (cases "dict_of x")
      case None
      have "\<not> sole_owner dict_of cycle A x"
      proof
        assume so: "sole_owner dict_of cycle A x"
        then have "dict_of A = Some x" by (simp add: sole_owner_def)
        with Some have "x = S" by simp
        with so False show False by simp
      qed
      with None show ?thesis by (simp add: partial_edges_None)
    next
      case Sx: (Some Sx)
      show ?thesis
      proof (cases "x = A")
        case True
        with Sx Some have "Sx = S" by simp
        with True Sx False A(1) show ?thesis by (simp add: partial_edges_Some)
      next
        case F: False
        with Sx show ?thesis by (simp add: partial_edges_Some)
      qed
    qed
    then have "?c = relabel ?P' cycle" by (intro relabel_cong)
    moreover from False cond have "\<not> (S \<in> ?e A \<and> \<not> (\<exists>(B, refs)\<in>set ?c. B \<noteq> A \<and> S \<in> refs))"
      by blast
    then have "collapse_step dict_of ?c A = Inr ?c"
      by (rule collapse_step_skip[of dict_of A S ?c "?e A", OF Some gA])
    ultimately show ?thesis by simp
  next
    case True
    then have SeA: "S \<in> ?e A" and others: "\<forall>B\<in>keys cycle. B \<noteq> A \<longrightarrow> S \<notin> ?e B"
      by (simp_all add: sole_owner_iff[OF d])
    from SeA edge_set_sub[OF cl, of A] have kS: "S \<in> keys cycle" by blast
    have no_owner: "\<not> (\<exists>A'\<in>set visited. sole_owner dict_of cycle A' S)"
    proof
      assume "\<exists>A'\<in>set visited. sole_owner dict_of cycle A' S"
      then obtain A' where A': "A' \<in> set visited" "sole_owner dict_of cycle A' S" by blast
      from A'(1) A(1) have "A \<noteq> A'" by auto
      moreover from A'(2) have "\<forall>B\<in>keys cycle. B \<noteq> A' \<longrightarrow> S \<notin> ?e B"
        by (simp add: sole_owner_iff[OF d])
      ultimately show False using A(2) SeA by blast
    qed
    have PS: "?P S = ?e S" using dS no_owner by (simp add: partial_edges_None)
    have gS: "getitem ?c S = Inr (?e S)" using kS by (simp add: getitem_relabel PS)
    from True cond have c: "S \<in> ?e A \<and> \<not> (\<exists>(B, refs)\<in>set ?c. B \<noteq> A \<and> S \<in> refs)" by blast
    have step: "collapse_step dict_of ?c A
        = Inr (setitem (setitem ?c A (?e S \<union> (?e A - {S}))) S {})"
      by (rule collapse_step_merge[of dict_of A S ?c "?e A" "?e S", OF Some gA gS c])
    have s1: "setitem ?c A (?e S \<union> (?e A - {S})) = relabel (?P(A := ?e S \<union> (?e A - {S}))) cycle"
      by (rule setitem_relabel[OF A(2)])
    have s2: "setitem (relabel (?P(A := ?e S \<union> (?e A - {S}))) cycle) S {}
        = relabel ((?P(A := ?e S \<union> (?e A - {S})))(S := {})) cycle"
      by (rule setitem_relabel[OF kS])
    have "((?P(A := ?e S \<union> (?e A - {S})))(S := {})) x = ?P' x" for x
    proof (cases "x = S")
      case xS: True
      have "\<exists>A'\<in>set (visited @ [A]). sole_owner dict_of cycle A' S" using True by auto
      with dS xS show ?thesis by (simp add: partial_edges_None)
    next
      case xS: False
      show ?thesis
      proof (cases "x = A")
        case xA: True
        with Some True xS show ?thesis by (simp add: partial_edges_Some Un_commute)
      next
        case xA: False
        show ?thesis
        proof (cases "dict_of x")
          case None
          have "\<not> sole_owner dict_of cycle A x"
          proof
            assume "sole_owner dict_of cycle A x"
            then have "dict_of A = Some x" by (simp add: sole_owner_def)
            with Some xS show False by simp
          qed
          with None xS xA show ?thesis by (simp add: partial_edges_None)
        next
          case Sx: (Some Sx)
          with xS xA show ?thesis by (simp add: partial_edges_Some)
        qed
      qed
    qed
    then have "relabel ((?P(A := ?e S \<union> (?e A - {S})))(S := {})) cycle = relabel ?P' cycle"
      by (intro relabel_cong)
    with step s1 s2 show ?thesis by simp
  qed
qed

lemma collapse_loop_partial:
  assumes d: "distinct (map fst cycle)" and cl: "refs_closed cycle"
    and nest: "\<forall>x S. dict_of x = Some S \<longrightarrow> dict_of S = None"
  shows "map fst cycle = visited @ todo \<Longrightarrow>
         collapse_loop dict_of (relabel (partial_edges dict_of cycle visited) cycle) todo =
           Inr (relabel (partial_edges dict_of cycle (visited @ todo)) cycle)"
proof (induction todo arbitrary: visited)
  case Nil
  then show ?case by simp
next
  case (Cons A todo)
  from Cons.prems d have "distinct (visited @ A # todo)" by simp
  then have nv: "A \<notin> set visited" by simp
  from Cons.prems have "A \<in> set (map fst cycle)" by simp
  then have kA: "A \<in> keys cycle" by (simp add: keys_def)
  from Cons.prems have "map fst cycle = (visited @ [A]) @ todo" by simp
  from Cons.IH[OF this] collapse_step_partial[OF d cl nest nv kA]
  show ?case by simp
qed

lemma partial_edges_all:
  "set visited = keys cycle \<Longrightarrow>
   partial_edges dict_of cycle visited x = spec_collapsed_edges dict_of cycle x"
proof -
  assume v: "set visited = keys cycle"
  have "sole_owner dict_of cycle y S \<Longrightarrow> y \<in> keys cycle" for y S
    by (simp add: sole_owner_def)
  with v show ?thesis
    by (auto simp: partial_edges_def spec_collapsed_edges_def split: option.splits)
qed

lemma partial_edges_none: "partial_edges dict_of cycle [] x = edge_set cycle x"
  by (simp add: partial_edges_def split: option.splits)

lemma collapse_spec:
  assumes d: "distinct (map fst cycle)" and cl: "refs_closed cycle"
    and nest: "\<forall>x S. dict_of x = Some S \<longrightarrow> dict_of S = None"
  shows "collapse dict_of cycle = Inr (spec_collapse dict_of cycle)"
proof -
  have "relabel (partial_edges dict_of cycle []) cycle = cycle"
    using relabel_edge_set[OF d] by (simp add: partial_edges_none[abs_def])
  moreover have "relabel (partial_edges dict_of cycle (map fst cycle)) cycle = spec_collapse dict_of cycle"
    unfolding spec_collapse_def
    by (intro relabel_cong partial_edges_all) (simp add: keys_def)
  ultimately show ?thesis
    using collapse_loop_partial[OF d cl nest, of "[]" "map fst cycle"]
    by (simp add: collapse_def)
qed

lemma collapse_visit:
  assumes cl: "refs_closed cycle" and split: "map fst cycle = pre @ A # post"
  shows "\<exists>before after result.
           collapse_loop dict_of cycle pre = Inr before \<and>
           collapse_step dict_of before A = Inr after \<and>
           collapse_loop dict_of after post = Inr result \<and>
           collapse dict_of cycle = Inr result \<and>
           map fst before = map fst cycle \<and> map fst after = map fst cycle \<and>
           map fst result = map fst cycle"
proof -
  have k: "keys cycle = set pre \<union> insert A (set post)"
    using split by (metis keys_def set_map set_append list.simps(15))
  then have "set pre \<subseteq> keys cycle" by blast
  from collapse_loop_total[OF cl this] obtain before where
    b: "collapse_loop dict_of cycle pre = Inr before" "refs_closed before" "map fst before = map fst cycle"
    by blast
  from b(3) have kb: "keys before = keys cycle" by (metis keys_def set_map)
  with k have "A \<in> keys before" by blast
  from collapse_step_total[OF b(2) this] obtain after where
    a: "collapse_step dict_of before A = Inr after" "refs_closed after" "map fst after = map fst before"
    by blast
  from a(3) kb have "keys after = keys cycle" by (metis keys_def set_map)
  with k have "set post \<subseteq> keys after" by blast
  from collapse_loop_total[OF a(2) this] obtain result where
    r: "collapse_loop dict_of after post = Inr result" "map fst result = map fst after"
    by blast
  have "collapse dict_of cycle = collapse_loop dict_of cycle (pre @ A # post)"
    by (simp add: collapse_def split)
  also have "\<dots> = Inr result"
    using b(1) a(1) r(1) by (simp add: collapse_loop_append)
  finally have "collapse dict_of cycle = Inr result" .
  with b a r show ?thesis by simp
qed

lemma spec_collapse_sole:
  assumes d: "distinct (map fst cycle)"
    and nest: "\<forall>x S. dict_of x = Some S \<longrightarrow> dict_of S = None"
    and A: "dict_of A = Some S" "map_of cycle A = Some own" "map_of cycle S = Some theirs"
    and sole: "S \<in> own" "\<not> (\<exists>(B, refs)\<in>set cycle. B \<noteq> A \<and> S \<in> refs)"
  shows "map_of (spec_collapse dict_of cycle) A = Some (own - {S} \<union> theirs) \<and>
         map_of (spec_collapse dict_of cycle) S = Some {}"
proof -
  from A(2) have kA: "A \<in> keys cycle" by (auto simp: key_iff_map_of)
  from A(3) have kS: "S \<in> keys cycle" by (auto simp: key_iff_map_of)
  have eA: "edge_set cycle A = own" and eS: "edge_set cycle S = theirs"
    using A(2,3) by (simp_all add: edge_set_def)
  have so: "sole_owner dict_of cycle A S"
    using A(1) kA eA sole by (simp add: sole_owner_def)
  from nest A(1) have dS: "dict_of S = None" by blast
  have "spec_collapsed_edges dict_of cycle A = own - {S} \<union> theirs"
    using A(1) so eA eS by (simp add: spec_collapsed_edges_def)
  moreover have "spec_collapsed_edges dict_of cycle S = {}"
    using dS so kA by (auto simp: spec_collapsed_edges_def)
  ultimately show ?thesis using kA kS by (simp add: spec_collapse_def map_of_relabel)
qed

lemma spec_collapse_shared:
  assumes d: "distinct (map fst cycle)"
    and nest: "\<forall>x S. dict_of x = Some S \<longrightarrow> dict_of S = None"
    and A: "dict_of A = Some S" "map_of cycle A = Some own" "map_of cycle S = Some theirs"
    and shared: "S \<in> own" "\<exists>(B, refs)\<in>set cycle. B \<noteq> A \<and> S \<in> refs"
  shows "map_of (spec_collapse dict_of cycle) A = Some own \<and>
         map_of (spec_collapse dict_of cycle) S = Some theirs"
proof -
  from A(2) have kA: "A \<in> keys cycle" by (auto simp: key_iff_map_of)
  from A(3) have kS: "S \<in> keys cycle" by (auto simp: key_iff_map_of)
  have eA: "edge_set cycle A = own" and eS: "edge_set cycle S = theirs"
    using A(2,3) by (simp_all add: edge_set_def)
  from A(2) have inA: "(A, own) \<in> set cycle" by (rule map_of_SomeD)
  have nso: "\<not> sole_owner dict_of cycle A' S" for A'
  proof
    assume so: "sole_owner dict_of cycle A' S"
    then have no: "\<not> (\<exists>(B, refs)\<in>set cycle. B \<noteq> A' \<and> S \<in> refs)" by (simp add: sole_owner_def)
    show False
    proof (cases "A' = A")
      case True
      with no shared(2) show False by simp
    next
      case False
      with inA shared(1) have "\<exists>(B, refs)\<in>set cycle. B \<noteq> A' \<and> S \<in> refs"
        by (intro bexI[of _ "(A, own)"]) auto
      with no show False by simp
    qed
  qed
  from nest A(1) have dS: "dict_of S = None" by blast
  have "spec_collapsed_edges dict_of cycle A = own"
    using A(1) nso eA by (simp add: spec_collapsed_edges_def)
  moreover have "spec_collapsed_edges dict_of cycle S = theirs"
    using dS nso eS by (simp add: spec_collapsed_edges_def)
  ultimately show ?thesis using kA kS by (simp add: spec_collapse_def map_of_relabel)
qed

text \<open>
  C2 as amended. The pass visits the members in the order of the mapping and changes it in
  place, so the conditions on \<open>A\<close> and its \<open>__dict__\<close> \<open>S\<close> are read on the mapping as it
  stands when \<open>A\<close> is visited (\<open>before\<close>): when \<open>S\<close> is then in \<open>A\<close>'s edge set and in no other
  member's, \<open>A\<close> is assigned its own edges without \<open>S\<close> united with those of \<open>S\<close> and \<open>S\<close> is
  then assigned the empty set; when another member references \<open>S\<close>, nothing changes at this
  visit; the rest of the pass goes on from there. On a component in which no \<open>__dict__\<close> has a
  \<open>__dict__\<close> of its own the conditions can be read on the component as it enters the pass:
  the pass returns \<open>spec_collapse\<close>, in which every sole owner has exactly the united set,
  its backing store has no edges, and a member whose backing store is also referenced by
  another member keeps its edges, as does that store.
\<close>

theorem collapse_pass:
  assumes "distinct (map fst cycle)" "refs_closed cycle"
  shows "(\<forall>pre A post. map fst cycle = pre @ A # post \<longrightarrow>
            (\<exists>before after result.
               collapse_loop dict_of cycle pre = Inr before \<and>
               collapse_step dict_of before A = Inr after \<and>
               collapse_loop dict_of after post = Inr result \<and>
               collapse dict_of cycle = Inr result \<and>
               map fst before = map fst cycle \<and> map fst after = map fst cycle \<and>
               map fst result = map fst cycle \<and>
               (\<forall>S own theirs.
                  dict_of A = Some S \<and> map_of before A = Some own \<and> map_of before S = Some theirs \<longrightarrow>
                  (S \<in> own \<and> \<not> (\<exists>(B, refs)\<in>set before. B \<noteq> A \<and> S \<in> refs) \<longrightarrow>
                     after = setitem (setitem before A (own - {S} \<union> theirs)) S {} \<and>
                     map_of after S = Some {} \<and>
                     (S \<noteq> A \<longrightarrow> map_of after A = Some (own - {S} \<union> theirs)) \<and>
                     (\<forall>B. B \<noteq> A \<and> B \<noteq> S \<longrightarrow> map_of after B = map_of before B)) \<and>
                  ((\<exists>(B, refs)\<in>set before. B \<noteq> A \<and> S \<in> refs) \<longrightarrow> after = before)))) \<and>
         ((\<forall>x S. dict_of x = Some S \<longrightarrow> dict_of S = None) \<longrightarrow>
            collapse dict_of cycle = Inr (spec_collapse dict_of cycle) \<and>
            map fst (spec_collapse dict_of cycle) = map fst cycle \<and>
            (\<forall>A S own theirs.
               dict_of A = Some S \<and> map_of cycle A = Some own \<and> map_of cycle S = Some theirs \<longrightarrow>
               (S \<in> own \<and> \<not> (\<exists>(B, refs)\<in>set cycle. B \<noteq> A \<and> S \<in> refs) \<longrightarrow>
                  map_of (spec_collapse dict_of cycle) A = Some (own - {S} \<union> theirs) \<and>
                  map_of (spec_collapse dict_of cycle) S = Some {}) \<and>
               (S \<in> own \<and> (\<exists>(B, refs)\<in>set cycle. B \<noteq> A \<and> S \<in> refs) \<longrightarrow>
                  map_of (spec_collapse dict_of cycle) A = Some own \<and>
                  map_of (spec_collapse dict_of cycle) S = Some theirs)))"
proof (intro conjI allI impI)
  fix pre A post assume split: "map fst cycle = pre @ A # post"
  from collapse_visit[OF assms(2) split, of dict_of] obtain before after result where
    v: "collapse_loop dict_of cycle pre = Inr before" "collapse_step dict_of before A = Inr after"
      "collapse_loop dict_of after post = Inr result" "collapse dict_of cycle = Inr result"
      "map fst before = map fst cycle" "map fst after = map fst cycle" "map fst result = map fst cycle"
    by blast
  have eff: "(S \<in> own \<and> \<not> (\<exists>(B, refs)\<in>set before. B \<noteq> A \<and> S \<in> refs) \<longrightarrow>
                 after = setitem (setitem before A (own - {S} \<union> theirs)) S {} \<and>
                 map_of after S = Some {} \<and>
                 (S \<noteq> A \<longrightarrow> map_of after A = Some (own - {S} \<union> theirs)) \<and>
                 (\<forall>B. B \<noteq> A \<and> B \<noteq> S \<longrightarrow> map_of after B = map_of before B)) \<and>
              ((\<exists>(B, refs)\<in>set before. B \<noteq> A \<and> S \<in> refs) \<longrightarrow> after = before)"
    if h: "dict_of A = Some S \<and> map_of before A = Some own \<and> map_of before S = Some theirs"
    for S own theirs
  proof -
    from h have h1: "dict_of A = Some S" and h2: "map_of before A = Some own"
      and h3: "map_of before S = Some theirs" by simp_all
    note e = collapse_step_effect[of dict_of A S before own theirs, OF h1 h2 h3]
    show ?thesis
    proof (intro conjI impI)
      assume c: "S \<in> own \<and> \<not> (\<exists>(B, refs)\<in>set before. B \<noteq> A \<and> S \<in> refs)"
      with e v(2) show a: "after = setitem (setitem before A (own - {S} \<union> theirs)) S {}" by simp
      from e c show "map_of after S = Some {}" unfolding a by blast
      from e c show "\<forall>B. B \<noteq> A \<and> B \<noteq> S \<longrightarrow> map_of after B = map_of before B" unfolding a by blast
      assume "S \<noteq> A"
      with e c show "map_of after A = Some (own - {S} \<union> theirs)" unfolding a by blast
    next
      assume "\<exists>(B, refs)\<in>set before. B \<noteq> A \<and> S \<in> refs"
      with e v(2) show "after = before" by simp
    qed
  qed
  show "\<exists>before after result.
               collapse_loop dict_of cycle pre = Inr before \<and>
               collapse_step dict_of before A = Inr after \<and>
               collapse_loop dict_of after post = Inr result \<and>
               collapse dict_of cycle = Inr result \<and>
               map fst before = map fst cycle \<and> map fst after = map fst cycle \<and>
               map fst result = map fst cycle \<and>
               (\<forall>S own theirs.
                  dict_of A = Some S \<and> map_of before A = Some own \<and> map_of before S = Some theirs \<longrightarrow>
                  (S \<in> own \<and> \<not> (\<exists>(B, refs)\<in>set before. B \<noteq> A \<and> S \<in> refs) \<longrightarrow>
                     after = setitem (setitem before A (own - {S} \<union> theirs)) S {} \<and>
                     map_of after S = Some {} \<and>
                     (S \<noteq> A \<longrightarrow> map_of after A = Some (own - {S} \<union> theirs)) \<and>
                     (\<forall>B. B \<noteq> A \<and> B \<noteq> S \<longrightarrow> map_of after B = map_of before B)) \<and>
                  ((\<exists>(B, refs)\<in>set before. B \<noteq> A \<and> S \<in> refs) \<longrightarrow> after = before))"
    using v eff by (intro exI[of _ before] exI[of _ after] exI[of _ result] conjI allI impI) blast+
next
  assume nest: "\<forall>x S. dict_of x = Some S \<longrightarrow> dict_of S = None"
  show "collapse dict_of cycle = Inr (spec_collapse dict_of cycle)"
    by (rule collapse_spec[OF assms nest])
next
  show "map fst (spec_collapse dict_of cycle) = map fst cycle"
    by (simp add: spec_collapse_def map_fst_relabel)
next
  fix A S own theirs
  assume nest: "\<forall>x S. dict_of x = Some S \<longrightarrow> dict_of S = None"
    and h: "dict_of A = Some S \<and> map_of cycle A = Some own \<and> map_of cycle S = Some theirs"
    and c: "S \<in> own \<and> \<not> (\<exists>(B, refs)\<in>set cycle. B \<noteq> A \<and> S \<in> refs)"
  from h c spec_collapse_sole[OF assms(1) nest, of A S own theirs]
  show "map_of (spec_collapse dict_of cycle) A = Some (own - {S} \<union> theirs)"
    and "map_of (spec_collapse dict_of cycle) S = Some {}" by blast+
next
  fix A S own theirs
  assume nest: "\<forall>x S. dict_of x = Some S \<longrightarrow> dict_of S = None"
    and h: "dict_of A = Some S \<and> map_of cycle A = Some own \<and> map_of cycle S = Some theirs"
    and c: "S \<in> own \<and> (\<exists>(B, refs)\<in>set cycle. B \<noteq> A \<and> S \<in> refs)"
  from h c spec_collapse_shared[OF assms(1) nest, of A S own theirs]
  show "map_of (spec_collapse dict_of cycle) A = Some own"
    and "map_of (spec_collapse dict_of cycle) S = Some theirs" by blast+
qed

theorem collapse_pass_witness:
  "collapse (\<lambda>x. if x = 1 then Some 2 else if x = 5 then Some 6 else None)
     [(1::nat, {2::nat, 4}), (2, {3}), (3, {1, 6}), (4, {}), (5, {6, 1}), (6, {5})]
   = Inr [(1, {3, 4}), (2, {}), (3, {1, 6}), (4, {}), (5, {6, 1}), (6, {5})]"
proof -
  let ?d = "\<lambda>x::nat. if x = 1 then Some (2::nat) else if x = 5 then Some 6 else None"
  let ?c = "[(1::nat, {2::nat, 4}), (2, {3}), (3, {1, 6}), (4, {}), (5, {6, 1}), (6, {5})]"
  have d: "distinct (map fst ?c)" by simp
  have cl: "refs_closed ?c" by (simp add: refs_closed_def keys_def)
  have nest: "\<forall>x S. ?d x = Some S \<longrightarrow> ?d S = None" by auto
  from collapse_pass[OF d cl, of ?d] nest have "collapse ?d ?c = Inr (spec_collapse ?d ?c)"
    by blast
  moreover have "spec_collapse ?d ?c = [(1, {3, 4}), (2, {}), (3, {1, 6}), (4, {}), (5, {6, 1}), (6, {5})]"
    by code_simp
  ultimately show ?thesis by simp
qed

theorem collapse_pass_counterexample:
  "sole_owner (\<lambda>x. if x = 1 then Some 2 else if x = 2 then Some 3 else None)
     [(1::nat, {2::nat}), (2, {3}), (3, {1})] 2 3 \<and>
   spec_collapse (\<lambda>x. if x = 1 then Some 2 else if x = 2 then Some 3 else None)
     [(1::nat, {2::nat}), (2, {3}), (3, {1})] = [(1, {3}), (2, {1}), (3, {})] \<and>
   collapse (\<lambda>x. if x = 1 then Some 2 else if x = 2 then Some 3 else None)
     [(1::nat, {2::nat}), (2, {3}), (3, {1})] = Inr [(1, {3}), (2, {}), (3, {1})]"
  by code_simp

lemma empties_iff: "item \<in> empties cycle \<longleftrightarrow> (item, {}) \<in> set cycle"
  by (force simp: empties_def)

lemma prune_round_distinct:
  assumes "distinct (map fst cycle)"
  shows "prune_round cycle =
           map (\<lambda>(item, refs). (item, refs - empties cycle)) (filter (\<lambda>(item, refs). refs \<noteq> {}) cycle)"
proof -
  have "(item \<notin> empties cycle) = (refs \<noteq> {})" if "(item, refs) \<in> set cycle" for item refs
  proof
    assume "item \<notin> empties cycle"
    with that show "refs \<noteq> {}" by (auto simp: empties_iff)
  next
    assume ne: "refs \<noteq> {}"
    show "item \<notin> empties cycle"
    proof
      assume "item \<in> empties cycle"
      then have "(item, {}) \<in> set cycle" by (simp add: empties_iff)
      with assms that have "refs = {}" by (meson eq_key_imp_eq_value)
      with ne show False by simp
    qed
  qed
  then have "filter (\<lambda>(item, refs). item \<notin> empties cycle) cycle = filter (\<lambda>(item, refs). refs \<noteq> {}) cycle"
    by (intro filter_cong) auto
  then show ?thesis by (simp add: prune_round_def)
qed

lemma prune_round_fixed: "empties cycle = {} \<Longrightarrow> prune_round cycle = cycle"
  by (simp add: prune_round_def map_idI)

lemma prune_rounds:
  "\<exists>n. prune cycle = (prune_round ^^ n) cycle \<and> (\<forall>m<n. empties ((prune_round ^^ m) cycle) \<noteq> {})"
proof (induction cycle rule: prune.induct)
  case (1 cycle)
  show ?case
  proof (cases "empties cycle = {}")
    case True
    then have "prune cycle = (prune_round ^^ 0) cycle" by simp
    then show ?thesis by blast
  next
    case False
    from 1[OF False] obtain n where
      n: "prune (prune_round cycle) = (prune_round ^^ n) (prune_round cycle)"
        "\<forall>m<n. empties ((prune_round ^^ m) (prune_round cycle)) \<noteq> {}"
      by blast
    have "prune cycle = (prune_round ^^ Suc n) cycle"
      using False n(1) by (simp add: funpow_swap1)
    moreover have "empties ((prune_round ^^ m) cycle) \<noteq> {}" if "m < Suc n" for m
    proof (cases m)
      case 0
      with False show ?thesis by simp
    next
      case (Suc k)
      with that n(2) show ?thesis by (simp add: funpow_swap1)
    qed
    ultimately show ?thesis by blast
  qed
qed

lemma empties_prune: "empties (prune cycle) = {}"
  by (induction cycle rule: prune.induct) simp

lemma prune_idem: "prune (prune cycle) = prune cycle"
  using empties_prune[of cycle] by simp

lemma distinct_prune_round: "distinct (map fst cycle) \<Longrightarrow> distinct (map fst (prune_round cycle))"
  by (simp add: prune_round_def comp_def case_prod_beta distinct_map_filter)

text \<open>
  C3: in one round of tail pruning the members that go are exactly those whose edge set
  is empty; the survivors keep their order and lose exactly the removed members from
  their edge sets. \<open>prune\<close> is a finite number of such rounds, each one applied to a
  mapping that still has a member without edges; its result has no such member, a further
  round leaves it as it is, and so does a second run of \<open>prune\<close>.
\<close>

theorem prune_fixed_point:
  assumes "distinct (map fst cycle)"
  shows "empties cycle = {item. (item, {}) \<in> set cycle} \<and>
         prune_round cycle =
           map (\<lambda>(item, refs). (item, refs - empties cycle)) (filter (\<lambda>(item, refs). refs \<noteq> {}) cycle) \<and>
         (\<exists>n. prune cycle = (prune_round ^^ n) cycle \<and>
              (\<forall>m<n. empties ((prune_round ^^ m) cycle) \<noteq> {})) \<and>
         empties (prune cycle) = {} \<and>
         prune_round (prune cycle) = prune cycle \<and>
         prune (prune cycle) = prune cycle"
proof -
  have "empties cycle = {item. (item, {}) \<in> set cycle}"
    by (auto simp: empties_iff)
  moreover note prune_round_distinct[OF assms] prune_rounds[of cycle] empties_prune[of cycle]
  moreover have "prune_round (prune cycle) = prune cycle"
    by (rule prune_round_fixed[OF empties_prune])
  moreover note prune_idem[of cycle]
  ultimately show ?thesis by blast
qed

theorem prune_fixed_point_witness:
  "prune_round [(1::nat, {2::nat}), (2, {3}), (3, {})] = [(1, {2}), (2, {})] \<and>
   prune [(1::nat, {2::nat}), (2, {3}), (3, {})] = [] \<and>
   prune (prune [(4::nat, {5::nat, 6}), (5, {4}), (6, {})]) = prune [(4, {5, 6}), (5, {4}), (6, {})]"
proof -
  have d: "distinct (map fst [(1::nat, {2::nat}), (2, {3}), (3, {})])" by simp
  have d': "distinct (map fst [(4::nat, {5::nat, 6}), (5, {4}), (6, {})])" by simp
  have e: "empties [(1::nat, {2::nat}), (2, {3}), (3, {})] = {3}"
    by (auto simp: empties_iff)
  have "prune_round [(1::nat, {2::nat}), (2, {3}), (3, {})] = [(1, {2}), (2, {})]"
    using prune_fixed_point[OF d] by (simp add: e)
  moreover have "prune [(1::nat, {2::nat}), (2, {3}), (3, {})] = []"
    by code_simp
  moreover have "prune (prune [(4::nat, {5::nat, 6}), (5, {4}), (6, {})]) = prune [(4, {5, 6}), (5, {4}), (6, {})]"
    using prune_fixed_point[OF d'] by blast
  ultimately show ?thesis by blast
qed

section \<open>Claims about the traceback reconciler\<close>

lemma slice_from_suffix:
  "slice_from (int (length tb) - int (length c)) tb = c \<longleftrightarrow> suffix c tb"
proof (cases "length c \<le> length tb")
  case True
  then have s: "slice_from (int (length tb) - int (length c)) tb = drop (length tb - length c) tb"
    by (simp add: slice_from_def nat_diff_distrib')
  show ?thesis
  proof
    assume "slice_from (int (length tb) - int (length c)) tb = c"
    with s have "drop (length tb - length c) tb = c" by simp
    then show "suffix c tb" by (metis suffix_drop)
  next
    assume "suffix c tb"
    then obtain p where "tb = p @ c" by (auto simp: suffix_def)
    then have "drop (length tb - length c) tb = c" by simp
    with s show "slice_from (int (length tb) - int (length c)) tb = c" by simp
  qed
next
  case False
  then have "length (slice_from (int (length tb) - int (length c)) tb) < length c"
    by (auto simp: slice_from_def)
  moreover from False have "\<not> suffix c tb" by (auto dest: suffix_length_le)
  ultimately show ?thesis by auto
qed

lemma trim_common_unfold:
  "trim_common complete common =
     (if common \<noteq> [] \<and> (\<exists>tb\<in>set complete. \<not> suffix common tb)
      then trim_common complete (tl common) else common)"
  by (subst trim_common.simps) (simp add: slice_from_suffix)

lemma trim_common_suffix: "suffix (trim_common complete common) common"
proof (induction complete common rule: trim_common.induct)
  case (1 complete common)
  show ?case
  proof (cases "common \<noteq> [] \<and> (\<exists>tb\<in>set complete. \<not> suffix common tb)")
    case True
    then have c: "common \<noteq> [] \<and> (\<exists>tb\<in>set complete.
        slice_from (int (length tb) - int (length common)) tb \<noteq> common)"
      by (simp add: slice_from_suffix)
    from 1[OF c] have "suffix (trim_common complete (tl common)) (tl common)" .
    then have "suffix (trim_common complete (tl common)) common"
      using True by (cases common) (auto simp: suffix_Cons)
    with True show ?thesis by (subst trim_common_unfold) simp
  next
    case False
    then show ?thesis by (subst trim_common_unfold) auto
  qed
qed

lemma trim_common_all: "tb \<in> set complete \<Longrightarrow> suffix (trim_common complete common) tb"
proof (induction complete common rule: trim_common.induct)
  case (1 complete common)
  show ?case
  proof (cases "common \<noteq> [] \<and> (\<exists>tb\<in>set complete. \<not> suffix common tb)")
    case True
    then have c: "common \<noteq> [] \<and> (\<exists>tb\<in>set complete.
        slice_from (int (length tb) - int (length common)) tb \<noteq> common)"
      by (simp add: slice_from_suffix)
    from 1(1)[OF c 1(2)] True show ?thesis by (subst trim_common_unfold) simp
  next
    case False
    then have r: "trim_common complete common = common" by (subst trim_common_unfold) auto
    show ?thesis
    proof (cases "common = []")
      case True
      with r show ?thesis by simp
    next
      case F: False
      with False 1(2) have "suffix common tb" by blast
      with r show ?thesis by simp
    qed
  qed
qed

lemma trim_common_longest:
  assumes "suffix q common" "\<forall>tb\<in>set complete. suffix q tb"
  shows "suffix q (trim_common complete common)"
  using assms
proof (induction complete common rule: trim_common.induct)
  case (1 complete common)
  show ?case
  proof (cases "common \<noteq> [] \<and> (\<exists>tb\<in>set complete. \<not> suffix common tb)")
    case True
    then have c: "common \<noteq> [] \<and> (\<exists>tb\<in>set complete.
        slice_from (int (length tb) - int (length common)) tb \<noteq> common)"
      by (simp add: slice_from_suffix)
    from True 1(3) have "q \<noteq> common" by blast
    with 1(2) True have "suffix q (tl common)"
      by (cases common) (auto simp: suffix_Cons)
    from 1(1)[OF c this 1(3)] True show ?thesis by (subst trim_common_unfold) simp
  next
    case False
    then have "trim_common complete common = common" by (subst trim_common_unfold) auto
    with 1(2) show ?thesis by simp
  qed
qed

lemma min_len_mem: "min_len x xs \<in> set (x # xs)"
  unfolding min_len_def
proof (induction xs arbitrary: x)
  case Nil
  then show ?case by simp
next
  case (Cons y ys)
  from Cons[of "if length y < length x then y else x"] show ?case by (auto split: if_splits)
qed

lemma foldl_min_len:
  "length (foldl (\<lambda>m tb. if length tb < length m then tb else m) z zs) \<le> length z \<and>
   (\<forall>tb\<in>set zs. length (foldl (\<lambda>m tb. if length tb < length m then tb else m) z zs) \<le> length tb)"
proof (induction zs arbitrary: z)
  case Nil
  then show ?case by simp
next
  case (Cons a zs)
  let ?f = "\<lambda>m tb. if length tb < length m then tb else m"
  let ?z = "if length a < length z then a else z"
  from Cons[of ?z] have 1: "length (foldl ?f ?z zs) \<le> length ?z"
    and 2: "\<forall>tb\<in>set zs. length (foldl ?f ?z zs) \<le> length tb" by blast+
  have 3: "length ?z \<le> length z" and 4: "length ?z \<le> length a" by simp_all
  from 1 3 have "length (foldl ?f ?z zs) \<le> length z" by (rule order_trans)
  moreover from 1 4 have "length (foldl ?f ?z zs) \<le> length a" by (rule order_trans)
  ultimately show ?case using 2 by simp
qed

lemma min_len_least: "tb \<in> set (x # xs) \<Longrightarrow> length (min_len x xs) \<le> length tb"
  using foldl_min_len[of x xs] by (auto simp: min_len_def)

lemma truncate_at_None: "truncate_at file tb = None \<longleftrightarrow> file \<notin> fst ` set tb"
  by (induction tb) (auto simp: image_iff split: if_splits)

lemma truncate_at_takeWhile:
  "file \<in> fst ` set tb \<Longrightarrow> truncate_at file tb = Some (takeWhile (\<lambda>(path, line). path \<noteq> file) tb)"
proof (induction tb)
  case Nil
  then show ?case by simp
next
  case (Cons fr tb)
  obtain path line where fr: "fr = (path, line)" by (cases fr)
  show ?case
  proof (cases "path = file")
    case True
    then show ?thesis by (simp add: fr)
  next
    case False
    with Cons.prems fr have "file \<in> fst ` set tb" by auto
    from Cons.IH[OF this] False show ?thesis by (simp add: fr)
  qed
qed

lemma set_map_filter_id: "set (List.map_filter id xs) = {x. Some x \<in> set xs}"
proof (induction xs)
  case Nil
  then show ?case by (simp add: List.map_filter_simps)
next
  case (Cons a xs)
  then show ?case by (cases a) (auto simp: List.map_filter_simps)
qed

lemma classify_spec:
  "classify file tbs complete incomplete =
     (complete @ map (takeWhile (\<lambda>(path, line). path \<noteq> file))
                  (filter (\<lambda>tb. file \<in> fst ` set tb) (List.map_filter id tbs)),
      incomplete @ filter (\<lambda>tb. file \<notin> fst ` set tb) (List.map_filter id tbs))"
proof (induction tbs arbitrary: complete incomplete)
  case Nil
  then show ?case by (simp add: List.map_filter_simps)
next
  case (Cons t tbs)
  show ?case
  proof (cases t)
    case None
    then show ?thesis by (simp add: Cons List.map_filter_simps)
  next
    case (Some tb)
    show ?thesis
    proof (cases "file \<in> fst ` set tb")
      case True
      from truncate_at_takeWhile[OF True] True Some show ?thesis
        by (simp add: Cons List.map_filter_simps)
    next
      case False
      then have "truncate_at file tb = None" by (simp add: truncate_at_None)
      with False Some show ?thesis by (simp add: Cons List.map_filter_simps)
    qed
  qed
qed

lemma snd_do_traceback: "snd (do_traceback split file traceback_of s arg) = s"
  by (simp add: do_traceback_def split: option.splits prod.splits)

lemma reconcile_example:
  assumes "f0 \<noteq> f1"
  shows "reconcile [[f1, f2, f3], [f0, f2, f3]] incomplete = Common_traceback [f2, f3]"
proof -
  have m: "min_len [f1, f2, f3] [[f0, f2, f3]] = [f1, f2, f3]" by (simp add: min_len_def)
  have 1: "\<not> suffix [f1, f2, f3] [f0, f2, f3]"
    using assms by (auto simp: suffix_def Cons_eq_append_conv)
  have 2: "suffix [f2, f3] [f1, f2, f3]" "suffix [f2, f3] [f0, f2, f3]"
    by (auto simp: suffix_def)
  have "trim_common [[f1, f2, f3], [f0, f2, f3]] [f1, f2, f3]
        = trim_common [[f1, f2, f3], [f0, f2, f3]] [f2, f3]"
    using 1 by (subst trim_common_unfold) simp
  also have "\<dots> = [f2, f3]"
    using 2 by (subst trim_common_unfold) simp
  finally show ?thesis by (simp add: reconcile_def m)
qed

text \<open>
  C4 as amended: when at least one traceback of the named objects reaches a frame of the
  tool's own file, the complete tracebacks are those, each cut before its first such frame,
  and the command reports their longest common suffix as tuples, that is the longest run
  of oldest (outermost) frames they share: read oldest first, the report is a prefix of
  every complete traceback and every common prefix is a prefix of it. It is reached from
  the first shortest complete traceback by dropping frames at its front, the most recent
  end. Tracebacks without a frame of the tool's own_file play no part. For the tuples
  \<open>[f1, f2, f3]\<close> and \<open>[f0, f2, f3]\<close>, \<open>f3\<close> the oldest frame and \<open>f0 \<noteq> f1\<close>, the report is
  \<open>[f2, f3]\<close>.
\<close>

theorem do_traceback_common_oldest:
  assumes "those (map (map_of (locals s)) (if split arg \<noteq> [] then split arg else map fst (locals s)))
             = Some objects"
    and "complete = map (takeWhile (\<lambda>(path, line). path \<noteq> own_file))
                      (filter (\<lambda>tb. own_file \<in> fst ` set tb) (List.map_filter id (map traceback_of objects)))"
    and "complete \<noteq> []"
  shows "\<exists>r. do_traceback split own_file traceback_of s arg = (Common_traceback r, s) \<and>
             r = trim_common complete (min_len (hd complete) (tl complete)) \<and>
             min_len (hd complete) (tl complete) \<in> set complete \<and>
             (\<forall>tb\<in>set complete. length (min_len (hd complete) (tl complete)) \<le> length tb) \<and>
             suffix r (min_len (hd complete) (tl complete)) \<and>
             (\<forall>tb\<in>set complete. suffix r tb) \<and>
             (\<forall>q. (\<forall>tb\<in>set complete. suffix q tb) \<longrightarrow> suffix q r) \<and>
             (\<forall>tb\<in>set complete. prefix (oldest_first r) (oldest_first tb)) \<and>
             (\<forall>q. (\<forall>tb\<in>set complete. prefix q (oldest_first tb)) \<longrightarrow> prefix q (oldest_first r)) \<and>
             (f0 \<noteq> f1 \<longrightarrow> reconcile [[f1, f2, f3], [f0, f2, f3]] incomplete = Common_traceback [f2, f3])"
proof -
  from assms(3) obtain c cs where c: "complete = c # cs" by (cases complete) auto
  let ?m = "min_len (hd complete) (tl complete)"
  let ?r = "trim_common complete ?m"
  have cl: "classify own_file (map traceback_of objects) [] [] =
      (complete, filter (\<lambda>tb. own_file \<notin> fst ` set tb) (List.map_filter id (map traceback_of objects)))"
    by (simp add: classify_spec assms(2))
  have rec: "reconcile complete inc = Common_traceback ?r" for inc
    by (simp add: reconcile_def c)
  have run: "do_traceback split own_file traceback_of s arg = (Common_traceback ?r, s)"
    using assms(1) by (simp add: do_traceback_def cl rec)
  have mem: "?m \<in> set complete" using min_len_mem[of c cs] by (simp add: c)
  have least: "\<forall>tb\<in>set complete. length ?m \<le> length tb"
    using min_len_least[of _ c cs] by (simp add: c)
  have suf: "suffix ?r ?m" by (rule trim_common_suffix)
  have all: "\<forall>tb\<in>set complete. suffix ?r tb" by (simp add: trim_common_all)
  have longest: "suffix q ?r" if q: "\<forall>tb\<in>set complete. suffix q tb" for q
  proof -
    from q mem have "suffix q ?m" by blast
    then show "suffix q ?r" using q by (rule trim_common_longest)
  qed
  have pall: "\<forall>tb\<in>set complete. prefix (oldest_first ?r) (oldest_first tb)"
    using all by (simp add: oldest_first_def suffix_to_prefix)
  have plongest: "prefix q (oldest_first ?r)" if q: "\<forall>tb\<in>set complete. prefix q (oldest_first tb)" for q
  proof -
    from q have "\<forall>tb\<in>set complete. suffix (rev q) tb"
      by (simp add: oldest_first_def suffix_to_prefix)
    from longest[OF this] show ?thesis by (simp add: oldest_first_def suffix_to_prefix)
  qed
  have ex: "f0 \<noteq> f1 \<longrightarrow> reconcile [[f1, f2, f3], [f0, f2, f3]] incomplete = Common_traceback [f2, f3]"
    by (simp add: reconcile_example)
  show ?thesis
  proof (intro exI[of _ ?r] conjI)
    show "do_traceback split own_file traceback_of s arg = (Common_traceback ?r, s)" by (rule run)
    show "?r = trim_common complete ?m" by simp
    show "?m \<in> set complete" by (rule mem)
    show "\<forall>tb\<in>set complete. length ?m \<le> length tb" by (rule least)
    show "suffix ?r ?m" by (rule suf)
    show "\<forall>tb\<in>set complete. suffix ?r tb" by (rule all)
    show "\<forall>q. (\<forall>tb\<in>set complete. suffix q tb) \<longrightarrow> suffix q ?r" using longest by blast
    show "\<forall>tb\<in>set complete. prefix (oldest_first ?r) (oldest_first tb)" by (rule pall)
    show "\<forall>q. (\<forall>tb\<in>set complete. prefix q (oldest_first tb)) \<longrightarrow> prefix q (oldest_first ?r)"
      using plongest by blast
    show "f0 \<noteq> f1 \<longrightarrow> reconcile [[f1, f2, f3], [f0, f2, f3]] incomplete = Common_traceback [f2, f3]"
      by (rule ex)
  qed
qed

theorem do_traceback_common_oldest_witness:
  "do_traceback (\<lambda>arg::string. []) ''scavenge.py''
     (\<lambda>x::nat. if x = 1 then Some [(''a.py'', 1), (''b.py'', 2), (''c.py'', 3), (''scavenge.py'', 4)]
                else if x = 2 then Some [(''z.py'', 1), (''b.py'', 2), (''c.py'', 3), (''scavenge.py'', 4)]
                else Some [(''q.py'', 1)])
     \<lparr>cycles = [], selection = 0, locals = [(''a'', 1), (''b'', 2), (''c'', 3)]\<rparr> ''''
   = (Common_traceback [(''b.py'', 2), (''c.py'', 3)],
      \<lparr>cycles = [], selection = 0, locals = [(''a'', 1), (''b'', 2), (''c'', 3)]\<rparr>)"
proof -
  let ?tb = "\<lambda>x::nat. if x = 1 then Some [(''a.py'', 1::nat), (''b.py'', 2), (''c.py'', 3), (''scavenge.py'', 4)]
                else if x = 2 then Some [(''z.py'', 1), (''b.py'', 2), (''c.py'', 3), (''scavenge.py'', 4)]
                else Some [(''q.py'', 1)]"
  let ?s = "\<lparr>cycles = [], selection = 0, locals = [(''a'', 1::nat), (''b'', 2), (''c'', 3)]\<rparr>"
  let ?sp = "\<lambda>arg::string. [] :: string list"
  let ?complete = "[[(''a.py'', 1::nat), (''b.py'', 2), (''c.py'', 3)], [(''z.py'', 1), (''b.py'', 2), (''c.py'', 3)]]"
  have 1: "those (map (map_of (locals ?s)) (if ?sp '''' \<noteq> [] then ?sp '''' else map fst (locals ?s)))
             = Some [1, 2, 3]"
    by simp
  have 2: "?complete = map (takeWhile (\<lambda>(path, line). path \<noteq> ''scavenge.py''))
      (filter (\<lambda>tb. ''scavenge.py'' \<in> fst ` set tb) (List.map_filter id (map ?tb [1, 2, 3])))"
    by (simp add: List.map_filter_simps)
  have 3: "?complete \<noteq> []" by simp
  from do_traceback_common_oldest[where split = ?sp and arg = "''''" and s = ?s and objects = "[1, 2, 3]"
      and own_file = "''scavenge.py''" and traceback_of = ?tb and complete = ?complete
      and ?f0.0 = "(''z.py'', 1)" and ?f1.0 = "(''a.py'', 1)" and ?f2.0 = "(''b.py'', 2)" and ?f3.0 = "(''c.py'', 3)"
      and incomplete = "[]", OF 1 2 3]
  obtain r where r: "do_traceback ?sp ''scavenge.py'' ?tb ?s '''' = (Common_traceback r, ?s)"
      "r = trim_common ?complete (min_len (hd ?complete) (tl ?complete))"
    and ex: "(''z.py'', 1::nat) \<noteq> (''a.py'', 1) \<longrightarrow>
      (reconcile ?complete [] :: string report) = Common_traceback [(''b.py'', 2), (''c.py'', 3)]"
    by blast
  from r(2) have "(reconcile ?complete [] :: string report) = Common_traceback r"
    by (simp add: reconcile_def)
  with ex have "r = [(''b.py'', 2), (''c.py'', 3)]" by simp
  with r(1) show ?thesis by simp
qed

theorem do_traceback_innermost_counterexample:
  "do_traceback (\<lambda>arg::string. []) ''scavenge.py''
     (\<lambda>x::nat. if x = 1 then Some [(''f3.py'', 3), (''f2.py'', 2), (''f1.py'', 1), (''scavenge.py'', 9)]
                else Some [(''f3.py'', 3), (''f2.py'', 2), (''f0.py'', 0), (''scavenge.py'', 9)])
     \<lparr>cycles = [], selection = 0, locals = [(''a'', 1), (''b'', 2)]\<rparr> ''''
   = (Common_traceback [], \<lparr>cycles = [], selection = 0, locals = [(''a'', 1), (''b'', 2)]\<rparr>) \<and>
   oldest_first [(''f3.py'', 3), (''f2.py'', 2), (''f1.py'', 1)] = [(''f1.py'', 1), (''f2.py'', 2), (''f3.py'', 3)] \<and>
   oldest_first [(''f3.py'', 3), (''f2.py'', 2), (''f0.py'', 0)] = [(''f0.py'', 0), (''f2.py'', 2), (''f3.py'', 3)] \<and>
   oldest_first [] \<noteq> [(''f2.py'', 2), (''f3.py'', 3)]"
  by code_simp

text \<open>
  C9: when none of the tracebacks of the named objects has a frame of the tool's own file
  (no complete traceback), the report depends only on how many tracebacks there are: more
  than one gives \<open>Cannot_establish\<close>, exactly one gives that traceback whole with the
  truncation mark, none gives \<open>No_traceback\<close>. The command always returns, and hands the
  session back as it got it.
\<close>

theorem do_traceback_no_complete:
  assumes "those (map (map_of (locals s)) (if split arg \<noteq> [] then split arg else map fst (locals s)))
             = Some objects"
    and "\<forall>tb. Some tb \<in> set (map traceback_of objects) \<longrightarrow> own_file \<notin> fst ` set tb"
  shows "do_traceback split own_file traceback_of s arg =
           (if 1 < length (List.map_filter id (map traceback_of objects)) then Cannot_establish
            else if length (List.map_filter id (map traceback_of objects)) = 1
              then Truncated_traceback (hd (List.map_filter id (map traceback_of objects)))
            else No_traceback, s) \<and>
         snd (do_traceback split' own_file traceback_of s' arg') = s'"
proof -
  let ?tbs = "map traceback_of objects"
  have none: "own_file \<notin> fst ` set tb" if "tb \<in> set (List.map_filter id ?tbs)" for tb
    using assms(2) that unfolding set_map_filter_id by blast
  have c: "filter (\<lambda>tb. own_file \<in> fst ` set tb) (List.map_filter id ?tbs) = []"
    using none by (simp add: filter_empty_conv)
  have i: "filter (\<lambda>tb. own_file \<notin> fst ` set tb) (List.map_filter id ?tbs) = List.map_filter id ?tbs"
    using none by (intro filter_True) blast
  have cl: "classify own_file ?tbs [] [] = ([], List.map_filter id ?tbs)"
    by (simp add: classify_spec c i)
  have run: "do_traceback split own_file traceback_of s arg = (reconcile [] (List.map_filter id ?tbs), s)"
    using assms(1) by (simp add: do_traceback_def cl)
  have rec: "reconcile [] inc =
      (if 1 < length inc then Cannot_establish
       else if length inc = 1 then Truncated_traceback (hd inc) else No_traceback)" for inc
    by (cases inc) (auto simp: reconcile_def)
  show ?thesis
    by (intro conjI, simp only: run rec, rule snd_do_traceback)
qed

theorem do_traceback_no_complete_witness:
  "do_traceback (\<lambda>arg. if arg = ''a b c'' then [''a'', ''b'', ''c''] else if arg = ''c  a'' then [''c'', ''a''] else [''c''])
     ''scavenge.py'' (\<lambda>x::nat. if x = 3 then None else Some [(''q.py'', x)])
     \<lparr>cycles = [], selection = 0, locals = [(''a'', 1), (''b'', 2), (''c'', 3)]\<rparr> ''a b c''
     = (Cannot_establish, \<lparr>cycles = [], selection = 0, locals = [(''a'', 1), (''b'', 2), (''c'', 3)]\<rparr>) \<and>
   do_traceback (\<lambda>arg. if arg = ''a b c'' then [''a'', ''b'', ''c''] else if arg = ''c  a'' then [''c'', ''a''] else [''c''])
     ''scavenge.py'' (\<lambda>x::nat. if x = 3 then None else Some [(''q.py'', x)])
     \<lparr>cycles = [], selection = 0, locals = [(''a'', 1), (''b'', 2), (''c'', 3)]\<rparr> ''c  a''
     = (Truncated_traceback [(''q.py'', 1)],
        \<lparr>cycles = [], selection = 0, locals = [(''a'', 1), (''b'', 2), (''c'', 3)]\<rparr>) \<and>
   do_traceback (\<lambda>arg. if arg = ''a b c'' then [''a'', ''b'', ''c''] else if arg = ''c  a'' then [''c'', ''a''] else [''c''])
     ''scavenge.py'' (\<lambda>x::nat. if x = 3 then None else Some [(''q.py'', x)])
     \<lparr>cycles = [], selection = 0, locals = [(''a'', 1), (''b'', 2), (''c'', 3)]\<rparr> ''c''
     = (No_traceback, \<lparr>cycles = [], selection = 0, locals = [(''a'', 1), (''b'', 2), (''c'', 3)]\<rparr>)"
proof -
  let ?tb = "\<lambda>x::nat. if x = 3 then None else Some [(''q.py'', x)]"
  let ?s = "\<lparr>cycles = [], selection = 0, locals = [(''a'', 1::nat), (''b'', 2), (''c'', 3)]\<rparr>"
  let ?sp = "\<lambda>arg. if arg = ''a b c'' then [''a'', ''b'', ''c''] else if arg = ''c  a'' then [''c'', ''a''] else [''c'']"
  have n: "\<forall>tb. Some tb \<in> set (map ?tb objs) \<longrightarrow> ''scavenge.py'' \<notin> fst ` set tb" for objs
    by auto
  have 1: "those (map (map_of (locals ?s)) (if ?sp ''a b c'' \<noteq> [] then ?sp ''a b c'' else map fst (locals ?s)))
             = Some [1, 2, 3]"
    by simp
  have 2: "those (map (map_of (locals ?s)) (if ?sp ''c  a'' \<noteq> [] then ?sp ''c  a'' else map fst (locals ?s)))
             = Some [3, 1]"
    by simp
  have 3: "those (map (map_of (locals ?s)) (if ?sp ''c'' \<noteq> [] then ?sp ''c'' else map fst (locals ?s)))
             = Some [3]"
    by simp
  show ?thesis
    using do_traceback_no_complete[where split = ?sp and arg = "''a b c''" and s = ?s and objects = "[1, 2, 3]"
        and own_file = "''scavenge.py''" and traceback_of = ?tb, OF 1 n, THEN conjunct1]
      do_traceback_no_complete[where split = ?sp and arg = "''c  a''" and s = ?s and objects = "[3, 1]"
        and own_file = "''scavenge.py''" and traceback_of = ?tb, OF 2 n, THEN conjunct1]
      do_traceback_no_complete[where split = ?sp and arg = "''c''" and s = ?s and objects = "[3]"
        and own_file = "''scavenge.py''" and traceback_of = ?tb, OF 3 n, THEN conjunct1]
    by (simp add: List.map_filter_simps)
qed

section \<open>Claims about the session set-up\<close>

lemma map_result_list_all2:
  "map_result f xs = Inr ys \<Longrightarrow> list_all2 (\<lambda>x y. f x = Inr y) xs ys"
proof (induction xs arbitrary: ys)
  case Nil
  then show ?case by simp
next
  case (Cons x xs)
  then show ?case by (auto split: sum.splits)
qed

lemma analyse_Inr:
  "analyse sizeof dict_of cycle = Inr v \<Longrightarrow>
     fst v = total_size sizeof cycle \<and> simplify dict_of cycle = Inr (snd v)"
  by (auto simp: analyse_def Let_def split: sum.splits)

text \<open>
  C5 as amended: the session lists one entry per separated component, its size the sum
  over the members the component had before it was simplified, its mapping the simplified
  one. The entries are sorted ascending by the pair of that size and the member count of
  the simplified mapping (the sort runs after the simplification and takes \<open>len\<close> of what
  it finds), the selection is 0, and the selected entry is least in that order.
\<close>

theorem explore_cycles_ranking:
  assumes "explore_cycles_init pick enum referents sizeof dict_of garbage = Inr (Some s)"
  shows "selection s = 0 \<and>
         sorted (map (\<lambda>v. (fst v, length (snd v))) (cycles s)) \<and>
         (\<forall>v\<in>set (cycles s).
            (fst (cycles s ! selection s), length (snd (cycles s ! selection s))) \<le> (fst v, length (snd v))) \<and>
         (\<exists>comps cs. separate pick enum (build_graph enum referents garbage) = Inr comps \<and>
            list_all2 (\<lambda>cycle v. fst v = total_size sizeof cycle \<and> simplify dict_of cycle = Inr (snd v)) comps cs \<and>
            cycles s = sort_key (\<lambda>v. (fst v, length (snd v))) cs \<and>
            mset (cycles s) = mset cs)"
proof -
  from assms obtain comps cs where
    c: "separate pick enum (build_graph enum referents garbage) = Inr comps"
      "map_result (analyse sizeof dict_of) comps = Inr cs"
      "s = \<lparr>cycles = sort_key sort_key_of cs, selection = 0, locals = []\<rparr>"
    by (auto simp: explore_cycles_init_def split: if_splits sum.splits)
  have k: "sort_key_of = (\<lambda>v. (fst v, length (snd v)))"
    by (simp add: fun_eq_iff sort_key_of_def)
  have cy: "cycles s = sort_key (\<lambda>v. (fst v, length (snd v))) cs" and sel: "selection s = 0"
    using c(3) by (simp_all add: k)
  have srt: "sorted (map (\<lambda>v. (fst v, length (snd v))) (cycles s))"
    unfolding cy by (rule sorted_sort_key)
  have least: "(fst (cycles s ! selection s), length (snd (cycles s ! selection s))) \<le> (fst v, length (snd v))"
    if "v \<in> set (cycles s)" for v
  proof -
    from that obtain i where i: "i < length (cycles s)" "cycles s ! i = v"
      by (auto simp: in_set_conv_nth)
    from srt i(1) have "map (\<lambda>v. (fst v, length (snd v))) (cycles s) ! 0
        \<le> map (\<lambda>v. (fst v, length (snd v))) (cycles s) ! i"
      by (intro sorted_nth_mono) auto
    moreover from i(1) have "0 < length (cycles s)" by (cases "cycles s") auto
    ultimately have "(fst (cycles s ! 0), length (snd (cycles s ! 0))) \<le> (fst (cycles s ! i), length (snd (cycles s ! i)))"
      using i(1) by (simp only: nth_map)
    with i(2) show ?thesis by (simp only: sel)
  qed
  have l2: "list_all2 (\<lambda>cycle v. fst v = total_size sizeof cycle \<and> simplify dict_of cycle = Inr (snd v)) comps cs"
    using map_result_list_all2[OF c(2)]
    by (rule list_all2_mono) (rule analyse_Inr)
  have ms: "mset (cycles s) = mset cs" unfolding cy by simp
  from sel srt least c(1) l2 cy ms show ?thesis by blast
qed

theorem explore_cycles_ranking_witness:
  "explore_cycles_init Min sorted_list_of_set
     (\<lambda>x::nat. if x = 1 then [2] else if x = 2 then [1] else if x = 3 then [4] else if x = 4 then [5] else [])
     (\<lambda>x. if x \<le> 2 then 3 else 2) (\<lambda>x. None) {1, 2, 3, 4, 5}
   = Inr (Some \<lparr>cycles = [(6, []), (6, [(1, {2}), (2, {1})])], selection = 0, locals = []\<rparr>) \<and>
   sorted (map (\<lambda>v. (fst v, length (snd v))) [(6::nat, []), (6, [(1::nat, {2::nat}), (2, {1})])])"
proof -
  let ?r = "\<lambda>x::nat. if x = 1 then [2] else if x = 2 then [1] else if x = 3 then [4] else if x = 4 then [5::nat] else []"
  let ?z = "\<lambda>x::nat. if x \<le> 2 then 3 else (2::nat)"
  let ?s = "\<lparr>cycles = [(6::nat, []), (6, [(1::nat, {2::nat}), (2, {1})])], selection = 0, locals = []\<rparr>"
  have run: "explore_cycles_init Min sorted_list_of_set ?r ?z (\<lambda>x. None) {1, 2, 3, 4, 5} = Inr (Some ?s)"
    by code_simp
  from explore_cycles_ranking[OF run] have "sorted (map (\<lambda>v. (fst v, length (snd v))) (cycles ?s))"
    by blast
  with run show ?thesis by simp
qed

theorem explore_cycles_ranking_counterexample:
  "separate Min sorted_list_of_set
     (build_graph sorted_list_of_set
        (\<lambda>x::nat. if x = 1 then [2] else if x = 2 then [1] else if x = 3 then [4] else if x = 4 then [5] else [])
        {1, 2, 3, 4, 5})
   = Inr [[(1, {2}), (2, {1})], [(3, {4}), (4, {5}), (5, {})]] \<and>
   spec_ranking (\<lambda>x. if x \<le> 2 then 3 else 2) (\<lambda>x. None)
     [[(1::nat, {2}), (2, {1})], [(3, {4}), (4, {5}), (5, {})]]
   = Inr [(6, [(1, {2}), (2, {1})]), (6, [])] \<and>
   explore_cycles_init Min sorted_list_of_set
     (\<lambda>x::nat. if x = 1 then [2] else if x = 2 then [1] else if x = 3 then [4] else if x = 4 then [5] else [])
     (\<lambda>x. if x \<le> 2 then 3 else 2) (\<lambda>x. None) {1, 2, 3, 4, 5}
   = Inr (Some \<lparr>cycles = [(6, []), (6, [(1, {2}), (2, {1})])], selection = 0, locals = []\<rparr>)"
  by code_simp

section \<open>Claims about the display names\<close>

lemma length_letters: "length letters = 26"
  by (simp add: letters_def)

lemma length_words_of_length: "length (words_of_length n) = 26 ^ n"
proof (induction n)
  case 0
  then show ?case by simp
next
  case (Suc n)
  have "length (concat (map (\<lambda>a. map (\<lambda>w. a @ w) (words_of_length n)) xs)) = length xs * 26 ^ n" for xs :: "string list"
    by (induction xs) (simp_all add: Suc)
  then show ?case by (simp add: length_letters)
qed

lemma words_of_length_1: "words_of_length (Suc 0) = letters"
proof -
  have "concat (map (\<lambda>a. [a]) xs) = xs" for xs :: "string list"
    by (induction xs) simp_all
  then show ?thesis by simp
qed

lemma words_of_length_add:
  "concat (map (\<lambda>a. map (\<lambda>b. a @ b) (words_of_length n)) (words_of_length m)) = words_of_length (m + n)"
proof (induction m)
  case 0
  then show ?case by (simp add: map_idI)
next
  case (Suc m)
  have inner: "concat (map (\<lambda>a. map (\<lambda>b. (l @ a) @ b) (words_of_length n)) ws)
        = map (\<lambda>w. l @ w) (concat (map (\<lambda>a. map (\<lambda>b. a @ b) (words_of_length n)) ws))" for l ws
    by (induction ws) simp_all
  have "concat (map (\<lambda>a. map (\<lambda>b. a @ b) (words_of_length n))
          (concat (map (\<lambda>l. map (\<lambda>w. l @ w) (words_of_length m)) ls)))
        = concat (map (\<lambda>l. map (\<lambda>w. l @ w) (words_of_length (m + n))) ls)" for ls :: "string list"
  proof (induction ls)
    case Nil
    then show ?case by simp
  next
    case (Cons l ls)
    have "concat (map (\<lambda>a. map (\<lambda>b. a @ b) (words_of_length n)) (map (\<lambda>w. l @ w) (words_of_length m)))
          = concat (map (\<lambda>a. map (\<lambda>b. (l @ a) @ b) (words_of_length n)) (words_of_length m))"
      by (simp only: map_map comp_def)
    also have "\<dots> = map (\<lambda>w. l @ w) (words_of_length (m + n))"
      by (simp only: inner Suc)
    finally show ?case using Cons by simp
  qed
  then show ?case by simp
qed

lemma extend_varnames_words:
  "\<exists>j. i \<le> j \<and> extend_varnames (words_of_length (2 ^ i)) n = Some (words_of_length (2 ^ j)) \<and>
       n \<le> 26 ^ (2 ^ j) \<and> (j = i \<or> 26 ^ (2 ^ (j - 1)) < n)"
proof (induction "n - 26 ^ (2 ^ i)" arbitrary: i rule: less_induct)
  case less
  show ?case
  proof (cases "26 ^ (2 ^ i) < n")
    case False
    then have "extend_varnames (words_of_length (2 ^ i)) n = Some (words_of_length (2 ^ i))"
      by (subst extend_varnames.simps) (simp add: length_words_of_length)
    with False show ?thesis by (intro exI[of _ i]) simp
  next
    case True
    have sq: "(2::nat) ^ i + 2 ^ i = 2 ^ Suc i" by simp
    have "(26::nat) ^ (2 ^ i) < 26 ^ (2 ^ Suc i)"
      by (intro power_strict_increasing) simp_all
    moreover have "a < b \<Longrightarrow> a < n \<Longrightarrow> n - b < n - a" for a b :: nat by arith
    ultimately have "n - 26 ^ (2 ^ Suc i) < n - 26 ^ (2 ^ i)" using True by blast
    from less[OF this] obtain j where
      j: "Suc i \<le> j" "extend_varnames (words_of_length (2 ^ Suc i)) n = Some (words_of_length (2 ^ j))"
        "n \<le> 26 ^ (2 ^ j)" "j = Suc i \<or> 26 ^ (2 ^ (j - 1)) < n"
      by blast
    have len: "length (words_of_length (2 ^ i)) < n"
      using True by (simp only: length_words_of_length)
    have "extend_varnames (words_of_length (2 ^ i)) n
        = extend_varnames (concat (map (\<lambda>a. map (\<lambda>b. a @ b) (words_of_length (2 ^ i))) (words_of_length (2 ^ i)))) n"
      using len by (subst extend_varnames.simps) (simp only: if_True)
    also have "\<dots> = extend_varnames (words_of_length (2 ^ Suc i)) n"
      by (simp only: words_of_length_add sq)
    finally have "extend_varnames (words_of_length (2 ^ i)) n = Some (words_of_length (2 ^ j))"
      using j(2) by simp
    moreover from j(4) True have "26 ^ (2 ^ (j - 1)) < n" by auto
    moreover from j(1) have "i \<le> j" by simp
    ultimately show ?thesis using j(3) by blast
  qed
qed

lemma letters_nth: "k < 26 \<Longrightarrow> letters ! k = [letter k]"
  unfolding letters_def letter_def by (subst nth_map) simp_all

lemma letters_alpha: "letters = map alpha_name [0..<26]"
proof (rule nth_equalityI)
  show "length letters = length (map alpha_name [0..<26])" by (simp add: length_letters)
next
  fix k assume "k < length letters"
  then have k: "k < 26" by (simp add: length_letters)
  then have "alpha_name k = [letter k]" by (subst alpha_name.simps) simp
  with k show "letters ! k = map alpha_name [0..<26] ! k"
    by (simp add: letters_nth)
qed

lemma concat_map_nth:
  assumes "k < length xs * length ys"
  shows "concat (map (\<lambda>a. map (f a) ys) xs) ! k = f (xs ! (k div length ys)) (ys ! (k mod length ys))"
  using assms
proof (induction xs arbitrary: k)
  case Nil
  then show ?case by simp
next
  case (Cons x xs)
  show ?case
  proof (cases "k < length ys")
    case True
    then show ?thesis by (simp add: nth_append)
  next
    case False
    then have ge: "length ys \<le> k" by simp
    with Cons.prems have "k - length ys < length xs * length ys" by simp
    from Cons.IH[OF this] have
      "concat (map (\<lambda>a. map (f a) ys) xs) ! (k - length ys)
       = f (xs ! ((k - length ys) div length ys)) (ys ! ((k - length ys) mod length ys))" .
    moreover from ge have "(k - length ys) mod length ys = k mod length ys"
      by (simp add: le_mod_geq)
    moreover have pos: "0 < length ys" using Cons.prems by (cases ys) auto
    from le_div_geq[OF pos ge] have "k div length ys = Suc ((k - length ys) div length ys)" .
    ultimately show ?thesis using False by (simp add: nth_append)
  qed
qed

lemma words_of_length_2_nth:
  assumes "k < 676"
  shows "words_of_length 2 ! k = [letter (k div 26), letter (k mod 26)]"
proof -
  have w2: "words_of_length 2 = concat (map (\<lambda>a. map (\<lambda>w. a @ w) letters) letters)"
    using words_of_length_1 by (simp add: numeral_2_eq_2)
  from assms have d: "k div 26 < 26" and m: "k mod 26 < 26" by simp_all
  from assms have "k < length letters * length letters" by (simp add: length_letters)
  from concat_map_nth[OF this, of "\<lambda>a w. a @ w"]
  have "words_of_length 2 ! k = letters ! (k div 26) @ letters ! (k mod 26)"
    by (simp add: w2 length_letters)
  with d m show ?thesis by (simp add: letters_nth)
qed

lemma zip_take_right: "length xs \<le> length ys \<Longrightarrow> zip xs ys = zip xs (take (length xs) ys)"
proof (induction xs arbitrary: ys)
  case Nil
  then show ?case by simp
next
  case (Cons x xs)
  from Cons.prems obtain y ys' where ys: "ys = y # ys'" by (cases ys) auto
  with Cons.prems have "length xs \<le> length ys'" by simp
  from Cons.IH[OF this] have "(x, y) # zip xs ys' = (x, y) # zip xs (take (length xs) ys')"
    by (simp only:)
  then show ?case by (simp only: ys zip_Cons_Cons length_Cons take_Suc_Cons)
qed

text \<open>
  C6 as amended: all names of one listing have the same length, the least power of two
  \<open>L\<close> with at least as many words of length \<open>L\<close> as the component has members, and the
  member at position \<open>k\<close> gets the \<open>k\<close>-th word of that length in lexicographic order. Up
  to 26 members these are the letters a, b, ..., the names of the specification's
  sequence; from 27 to 676 members every name has two letters, \<open>aa, ab, ..., az, ba, ...\<close>,
  and no member has a one-letter name.
\<close>

theorem varmap_names:
  "\<exists>j. extend_varnames letters (length cycle) = Some (words_of_length (2 ^ j)) \<and>
       varmap cycle = Some (zip (map fst cycle) (words_of_length (2 ^ j))) \<and>
       length cycle \<le> 26 ^ (2 ^ j) \<and>
       (j = 0 \<or> 26 ^ (2 ^ (j - 1)) < length cycle) \<and>
       (\<forall>k<length cycle.
          zip (map fst cycle) (words_of_length (2 ^ j)) ! k = (fst (cycle ! k), words_of_length (2 ^ j) ! k)) \<and>
       (length cycle \<le> 26 \<longrightarrow>
          j = 0 \<and> varmap cycle = Some (spec_varmap cycle) \<and>
          (\<forall>k<length cycle. words_of_length (2 ^ j) ! k = [letter k])) \<and>
       (26 < length cycle \<and> length cycle \<le> 676 \<longrightarrow>
          j = 1 \<and>
          (\<forall>k<length cycle. words_of_length (2 ^ j) ! k = [letter (k div 26), letter (k mod 26)]))"
proof -
  let ?n = "length cycle"
  have l0: "letters = words_of_length (2 ^ 0)" by (simp add: words_of_length_1)
  from extend_varnames_words[of 0 ?n] obtain j where
    j: "extend_varnames letters ?n = Some (words_of_length (2 ^ j))"
      "?n \<le> 26 ^ (2 ^ j)" "j = 0 \<or> 26 ^ (2 ^ (j - 1)) < ?n"
    unfolding l0[symmetric] by blast
  let ?names = "words_of_length (2 ^ j)"
  have vm: "varmap cycle = Some (zip (map fst cycle) ?names)"
    by (simp add: varmap_def j(1))
  have nth: "zip (map fst cycle) ?names ! k = (fst (cycle ! k), ?names ! k)" if "k < ?n" for k
    using that j(2) by (simp add: length_words_of_length)
  have small: "j = 0 \<and> varmap cycle = Some (spec_varmap cycle) \<and> (\<forall>k<?n. ?names ! k = [letter k])"
    if n: "?n \<le> 26"
  proof -
    have j0: "j = 0"
    proof (rule ccontr)
      assume "j \<noteq> 0"
      with j(3) have lt: "26 ^ (2 ^ (j - 1)) < ?n" by simp
      have "(26::nat) ^ 1 \<le> 26 ^ (2 ^ (j - 1))" by (intro power_increasing) simp_all
      with lt n show False by simp
    qed
    then have names: "?names = letters" by (simp add: words_of_length_1)
    have "zip (map fst cycle) letters = zip (map fst cycle) (take (length (map fst cycle)) letters)"
      by (rule zip_take_right) (simp add: length_letters n)
    also have "take (length (map fst cycle)) letters = map alpha_name [0..<?n]"
      using n by (simp add: letters_alpha take_map)
    finally have "zip (map fst cycle) letters = spec_varmap cycle" by (simp add: spec_varmap_def)
    with vm names have "varmap cycle = Some (spec_varmap cycle)" by simp
    moreover have "?names ! k = [letter k]" if "k < ?n" for k
      using that n by (simp add: names letters_nth)
    ultimately show ?thesis using j0 by blast
  qed
  have medium: "j = 1 \<and> (\<forall>k<?n. ?names ! k = [letter (k div 26), letter (k mod 26)])"
    if n: "26 < ?n \<and> ?n \<le> 676"
  proof -
    have "j \<noteq> 0"
    proof
      assume "j = 0"
      with j(2) have "?n \<le> 26" by simp
      with n show False by simp
    qed
    with j(3) have lt: "26 ^ (2 ^ (j - 1)) < ?n" by simp
    have j1: "j = 1"
    proof (rule ccontr)
      assume "j \<noteq> 1"
      with \<open>j \<noteq> 0\<close> have "2 \<le> j" by simp
      then have "(2::nat) ^ 1 \<le> 2 ^ (j - 1)" by (intro power_increasing) simp_all
      then have "(26::nat) ^ 2 \<le> 26 ^ (2 ^ (j - 1))" by (intro power_increasing) simp_all
      with lt n show False by simp
    qed
    then have "?names = words_of_length 2" by simp
    moreover have "words_of_length 2 ! k = [letter (k div 26), letter (k mod 26)]" if "k < ?n" for k
      using that n by (intro words_of_length_2_nth) simp
    ultimately show ?thesis using j1 by simp
  qed
  from j vm nth small medium show ?thesis by (intro exI[of _ j]) blast
qed

theorem varmap_names_witness:
  "varmap [(5::nat, {7}), (7, {5})] = Some (spec_varmap [(5, {7}), (7, {5})]) \<and>
   spec_varmap [(5::nat, {7::nat}), (7, {5})] = [(5, ''a''), (7, ''b'')]"
proof -
  from varmap_names[of "[(5::nat, {7}), (7, {5})]"]
  have "varmap [(5::nat, {7}), (7, {5})] = Some (spec_varmap [(5, {7}), (7, {5})])"
    by auto
  moreover have "spec_varmap [(5::nat, {7::nat}), (7, {5})] = [(5, ''a''), (7, ''b'')]"
    by code_simp
  ultimately show ?thesis by simp
qed

theorem varmap_names_counterexample:
  "map_option hd (varmap (zip [0..<27] (replicate 27 {}))) = Some (0::nat, ''aa'') \<and>
   hd (spec_varmap (zip [0..<27] (replicate 27 ({}::nat set)))) = (0::nat, ''a'')"
  by code_simp

section \<open>Claims about the reference describer\<close>

lemma probe_mapping_Continue:
  "probe_mapping fmt_r ref items = Continue \<longleftrightarrow> ref \<notin> fst ` set items \<union> snd ` set items"
proof (induction items)
  case Nil
  then show ?case by simp
next
  case (Cons p items)
  obtain key val where p: "p = (key, val)" by (cases p)
  from Cons show ?case by (auto simp: p split: option.splits)
qed

lemma probe_mapping_skip:
  "ref \<notin> fst ` set pre \<union> snd ` set pre \<Longrightarrow>
   probe_mapping fmt_r ref (pre @ rest) = probe_mapping fmt_r ref rest"
proof (induction pre)
  case Nil
  then show ?case by simp
next
  case (Cons p pre)
  obtain key val where p: "p = (key, val)" by (cases p)
  from Cons show ?case by (auto simp: p)
qed

lemma probe_sequence_Continue: "probe_sequence ref i xs = Continue \<longleftrightarrow> ref \<notin> set xs"
  by (induction xs arbitrary: i) auto

lemma probe_sequence_skip:
  "ref \<notin> set pre \<Longrightarrow> probe_sequence ref i (pre @ rest) = probe_sequence ref (i + length pre) rest"
  by (induction pre arbitrary: i) auto

lemma probe_attrs_Continue:
  "probe_attrs ref attrs = Continue \<longleftrightarrow> (\<forall>(a, g)\<in>set attrs. g \<noteq> None \<and> g \<noteq> Some ref)"
proof (induction attrs)
  case Nil
  then show ?case by simp
next
  case (Cons p attrs)
  obtain a g where p: "p = (a, g)" by (cases p)
  from Cons show ?case by (cases g) (auto simp: p)
qed

lemma probe_attrs_skip:
  "\<forall>(a, g)\<in>set pre. g \<noteq> None \<and> g \<noteq> Some ref \<Longrightarrow>
   probe_attrs ref (pre @ rest) = probe_attrs ref rest"
proof (induction pre)
  case Nil
  then show ?case by simp
next
  case (Cons p pre)
  obtain a g where p: "p = (a, g)" by (cases p)
  from Cons show ?case by (cases g) (auto simp: p)
qed

lemma fmtref_try_entries:
  "fmtref_try fmt_r obj ref =
     or_else (probe_mapping fmt_r ref (entries (mapping_items obj)))
    (or_else (probe_sequence ref 0 (entries (sequence_items obj)))
    (or_else (probe_set ref (entries (set_items obj)))
             (probe_attrs ref (attributes obj))))"
  by (simp add: fmtref_try_def entries_def probe_set_def split: option.splits)

lemma describe_Return:
  "fmtref_try fmt_r obj ref = Return s \<Longrightarrow> s \<noteq> [] \<Longrightarrow> describe fmt_r obj ref = s"
  by (simp add: describe_def fmtref_def)

lemma describe_other:
  "fmtref_try fmt_r obj ref = Raise \<or> fmtref_try fmt_r obj ref = Continue \<Longrightarrow>
   fmtref fmt_r obj ref = None \<and> describe fmt_r obj ref = ''{obj:} -> {ref:}''"
  by (auto simp: describe_def fmtref_def)

lemma show_nat_1: "show_nat 1 = ''1''"
  by (subst show_nat.simps) (simp add: digit_def)


lemma fmtref_Return:
  "fmtref_try fmt_r obj ref = Return s \<Longrightarrow> s \<noteq> [] \<Longrightarrow>
   fmtref fmt_r obj ref = Some s \<and> describe fmt_r obj ref = s"
  by (simp add: describe_def fmtref_def)

lemma try_mapping_value:
  assumes "entries (mapping_items obj) = pre @ (key, ref) # post"
    and "ref \<notin> fst ` set pre \<union> snd ` set pre"
  shows "fmtref_try fmt_r obj ref =
    (case fmt_r key of None \<Rightarrow> Raise | Some r \<Rightarrow> Return (''{obj:}['' @ r @ ''] is {ref:}''))"
  using assms(2)
  by (simp add: fmtref_try_entries assms(1) probe_mapping_skip or_else_def split: option.splits)

lemma try_mapping_key:
  assumes "entries (mapping_items obj) = pre @ (ref, val) # post"
    and "val \<noteq> ref"
    and "ref \<notin> fst ` set pre \<union> snd ` set pre"
  shows "fmtref_try fmt_r obj ref = Return ''{obj:}[{ref:}]''"
  using assms(2,3)
  by (simp add: fmtref_try_entries assms(1) probe_mapping_skip or_else_def)

lemma try_no_mapping:
  assumes "ref \<notin> fst ` set (entries (mapping_items obj)) \<union> snd ` set (entries (mapping_items obj))"
  shows "fmtref_try fmt_r obj ref =
     or_else (probe_sequence ref 0 (entries (sequence_items obj)))
    (or_else (probe_set ref (entries (set_items obj)))
             (probe_attrs ref (attributes obj)))"
proof -
  have "probe_mapping fmt_r ref (entries (mapping_items obj)) = Continue"
    using assms by (simp add: probe_mapping_Continue)
  then show ?thesis by (simp add: fmtref_try_entries or_else_def)
qed

lemma try_sequence:
  assumes "ref \<notin> fst ` set (entries (mapping_items obj)) \<union> snd ` set (entries (mapping_items obj))"
    and "entries (sequence_items obj) = pre @ ref # post"
    and "ref \<notin> set pre"
  shows "fmtref_try fmt_r obj ref = Return (''{obj:}['' @ show_nat (length pre) @ ''] is {ref:}'')"
  using assms(3)
  by (simp add: try_no_mapping [OF assms(1)] assms(2) probe_sequence_skip or_else_def)

lemma try_no_sequence:
  assumes "ref \<notin> fst ` set (entries (mapping_items obj)) \<union> snd ` set (entries (mapping_items obj))"
    and "ref \<notin> set (entries (sequence_items obj))"
  shows "fmtref_try fmt_r obj ref =
     or_else (probe_set ref (entries (set_items obj))) (probe_attrs ref (attributes obj))"
proof -
  have "probe_sequence ref 0 (entries (sequence_items obj)) = Continue"
    using assms(2) by (simp add: probe_sequence_Continue)
  then show ?thesis by (simp add: try_no_mapping [OF assms(1)] or_else_def)
qed

lemma try_set:
  assumes "ref \<notin> fst ` set (entries (mapping_items obj)) \<union> snd ` set (entries (mapping_items obj))"
    and "ref \<notin> set (entries (sequence_items obj))"
    and "ref \<in> set (entries (set_items obj))"
  shows "fmtref_try fmt_r obj ref = Return ''{ref:} in {obj:}''"
  using assms(3) by (simp add: try_no_sequence [OF assms(1,2)] probe_set_def or_else_def)

lemma try_attrs:
  assumes "ref \<notin> fst ` set (entries (mapping_items obj)) \<union> snd ` set (entries (mapping_items obj))"
    and "ref \<notin> set (entries (sequence_items obj))"
    and "ref \<notin> set (entries (set_items obj))"
  shows "fmtref_try fmt_r obj ref = probe_attrs ref (attributes obj)"
  using assms(3) by (simp add: try_no_sequence [OF assms(1,2)] probe_set_def or_else_def)

lemma probe_attrs_match:
  assumes "\<forall>(a, g)\<in>set pre. g \<noteq> None \<and> g \<noteq> Some ref"
  shows "probe_attrs ref (pre @ (name, Some ref) # post) = Return (''{obj:}.'' @ name @ '' is {ref:}'')"
  by (simp add: probe_attrs_skip [OF assms])

lemma probe_attrs_fail:
  assumes "\<forall>(a, g)\<in>set pre. g \<noteq> None \<and> g \<noteq> Some ref"
  shows "probe_attrs ref (pre @ (name, None) # post) = Raise"
  by (simp add: probe_attrs_skip [OF assms])

text \<open>
  C8, as amended. \<open>fmtref\<close> makes one pass over the entries of a mapping owner and tests,
  entry by entry, the value first and the key second; so the entry that decides is the
  first one that holds the referent as value or as key, and it yields the value phrase
  (with the key formatted by \<open>%r\<close>) when its value is the referent, the key phrase
  otherwise. Only when no entry holds the referent does the sequence probe run (phrase
  with the index of the first occurrence), then the set probe, then the attributes in
  the order of \<open>dir\<close> (phrase of the first attribute whose value is the referent). When
  nothing matches \<open>fmtref\<close> returns \<open>None\<close> and the caller prints the generic arrow form.
  A failure while probing (formatting the key of the deciding entry, or reading an
  attribute ahead of any match) is swallowed: \<open>fmtref\<close> returns \<open>None\<close>, the caller prints
  the arrow form. A mapping \<open>{k: target}\<close> gives the phrase with the formatted key, a
  sequence \<open>[x, target]\<close> the phrase with index 1.
\<close>

theorem fmtref_first_match:
  fixes obj :: "'a pyobj" and ref :: 'a and fmt_r :: "'a \<Rightarrow> string option"
  shows
   "(\<forall>pre key post r.
       entries (mapping_items obj) = pre @ (key, ref) # post \<and>
       ref \<notin> fst ` set pre \<union> snd ` set pre \<and> fmt_r key = Some r \<longrightarrow>
       fmtref fmt_r obj ref = Some (''{obj:}['' @ r @ ''] is {ref:}'') \<and>
       describe fmt_r obj ref = ''{obj:}['' @ r @ ''] is {ref:}'') \<and>
    (\<forall>pre val post.
       entries (mapping_items obj) = pre @ (ref, val) # post \<and> val \<noteq> ref \<and>
       ref \<notin> fst ` set pre \<union> snd ` set pre \<longrightarrow>
       fmtref fmt_r obj ref = Some ''{obj:}[{ref:}]'' \<and>
       describe fmt_r obj ref = ''{obj:}[{ref:}]'') \<and>
    (ref \<notin> fst ` set (entries (mapping_items obj)) \<union> snd ` set (entries (mapping_items obj)) \<longrightarrow>
       (\<forall>pre post.
          entries (sequence_items obj) = pre @ ref # post \<and> ref \<notin> set pre \<longrightarrow>
          fmtref fmt_r obj ref = Some (''{obj:}['' @ show_nat (length pre) @ ''] is {ref:}'') \<and>
          describe fmt_r obj ref = ''{obj:}['' @ show_nat (length pre) @ ''] is {ref:}'') \<and>
       (ref \<notin> set (entries (sequence_items obj)) \<longrightarrow>
          (ref \<in> set (entries (set_items obj)) \<longrightarrow>
             fmtref fmt_r obj ref = Some ''{ref:} in {obj:}'' \<and>
             describe fmt_r obj ref = ''{ref:} in {obj:}'') \<and>
          (ref \<notin> set (entries (set_items obj)) \<longrightarrow>
             (\<forall>pre name post.
                attributes obj = pre @ (name, Some ref) # post \<and>
                (\<forall>(a, g)\<in>set pre. g \<noteq> None \<and> g \<noteq> Some ref) \<longrightarrow>
                fmtref fmt_r obj ref = Some (''{obj:}.'' @ name @ '' is {ref:}'') \<and>
                describe fmt_r obj ref = ''{obj:}.'' @ name @ '' is {ref:}'') \<and>
             ((\<forall>(a, g)\<in>set (attributes obj). g \<noteq> None \<and> g \<noteq> Some ref) \<longrightarrow>
                fmtref_try fmt_r obj ref = Continue \<and>
                fmtref fmt_r obj ref = None \<and>
                describe fmt_r obj ref = ''{obj:} -> {ref:}'') \<and>
             (\<forall>pre name post.
                attributes obj = pre @ (name, None) # post \<and>
                (\<forall>(a, g)\<in>set pre. g \<noteq> None \<and> g \<noteq> Some ref) \<longrightarrow>
                fmtref_try fmt_r obj ref = Raise \<and>
                fmtref fmt_r obj ref = None \<and>
                describe fmt_r obj ref = ''{obj:} -> {ref:}'')))) \<and>
    (\<forall>pre key post.
       entries (mapping_items obj) = pre @ (key, ref) # post \<and>
       ref \<notin> fst ` set pre \<union> snd ` set pre \<and> fmt_r key = None \<longrightarrow>
       fmtref_try fmt_r obj ref = Raise \<and>
       fmtref fmt_r obj ref = None \<and>
       describe fmt_r obj ref = ''{obj:} -> {ref:}'') \<and>
    (fmtref_try fmt_r obj ref = Raise \<longrightarrow>
       fmtref fmt_r obj ref = None \<and> describe fmt_r obj ref = ''{obj:} -> {ref:}'') \<and>
    (\<forall>k r sq st at.
       fmt_r k = Some r \<longrightarrow>
       describe fmt_r \<lparr>mapping_items = Some [(k, ref)], sequence_items = sq, set_items = st,
                      attributes = at\<rparr> ref = ''{obj:}['' @ r @ ''] is {ref:}'') \<and>
    (\<forall>x st at.
       x \<noteq> ref \<longrightarrow>
       describe fmt_r \<lparr>mapping_items = None, sequence_items = Some [x, ref], set_items = st,
                      attributes = at\<rparr> ref = ''{obj:}[1] is {ref:}'')"
proof (intro conjI allI impI; (elim conjE)?)
  fix pre key post r
  assume "entries (mapping_items obj) = pre @ (key, ref) # post"
    and "ref \<notin> fst ` set pre \<union> snd ` set pre" and "fmt_r key = Some r"
  then have "fmtref_try fmt_r obj ref = Return (''{obj:}['' @ r @ ''] is {ref:}'')"
    by (simp add: try_mapping_value [of obj pre key ref post fmt_r])
  from fmtref_Return [OF this]
  show "fmtref fmt_r obj ref = Some (''{obj:}['' @ r @ ''] is {ref:}'')"
    and "describe fmt_r obj ref = ''{obj:}['' @ r @ ''] is {ref:}''"
    by simp_all
next
  fix pre val post
  assume "entries (mapping_items obj) = pre @ (ref, val) # post" and "val \<noteq> ref"
    and "ref \<notin> fst ` set pre \<union> snd ` set pre"
  then have "fmtref_try fmt_r obj ref = Return ''{obj:}[{ref:}]''"
    by (rule try_mapping_key)
  from fmtref_Return [OF this]
  show "fmtref fmt_r obj ref = Some ''{obj:}[{ref:}]''"
    and "describe fmt_r obj ref = ''{obj:}[{ref:}]''"
    by simp_all
next
  fix pre post
  assume "ref \<notin> fst ` set (entries (mapping_items obj)) \<union> snd ` set (entries (mapping_items obj))"
    and "entries (sequence_items obj) = pre @ ref # post" and "ref \<notin> set pre"
  then have "fmtref_try fmt_r obj ref = Return (''{obj:}['' @ show_nat (length pre) @ ''] is {ref:}'')"
    by (rule try_sequence)
  from fmtref_Return [OF this]
  show "fmtref fmt_r obj ref = Some (''{obj:}['' @ show_nat (length pre) @ ''] is {ref:}'')"
    and "describe fmt_r obj ref = ''{obj:}['' @ show_nat (length pre) @ ''] is {ref:}''"
    by simp_all
next
  assume "ref \<notin> fst ` set (entries (mapping_items obj)) \<union> snd ` set (entries (mapping_items obj))"
    and "ref \<notin> set (entries (sequence_items obj))" and "ref \<in> set (entries (set_items obj))"
  then have "fmtref_try fmt_r obj ref = Return ''{ref:} in {obj:}''"
    by (rule try_set)
  from fmtref_Return [OF this]
  show "fmtref fmt_r obj ref = Some ''{ref:} in {obj:}''"
    and "describe fmt_r obj ref = ''{ref:} in {obj:}''"
    by simp_all
next
  fix pre name post
  assume "ref \<notin> fst ` set (entries (mapping_items obj)) \<union> snd ` set (entries (mapping_items obj))"
    and "ref \<notin> set (entries (sequence_items obj))" and "ref \<notin> set (entries (set_items obj))"
  then have t: "fmtref_try fmt_r obj ref = probe_attrs ref (attributes obj)"
    by (rule try_attrs)
  assume "attributes obj = pre @ (name, Some ref) # post"
    and "\<forall>(a, g)\<in>set pre. g \<noteq> None \<and> g \<noteq> Some ref"
  then have "fmtref_try fmt_r obj ref = Return (''{obj:}.'' @ name @ '' is {ref:}'')"
    by (simp add: t probe_attrs_match)
  from fmtref_Return [OF this]
  show "fmtref fmt_r obj ref = Some (''{obj:}.'' @ name @ '' is {ref:}'')"
    and "describe fmt_r obj ref = ''{obj:}.'' @ name @ '' is {ref:}''"
    by simp_all
next
  assume "ref \<notin> fst ` set (entries (mapping_items obj)) \<union> snd ` set (entries (mapping_items obj))"
    and "ref \<notin> set (entries (sequence_items obj))" and "ref \<notin> set (entries (set_items obj))"
  then have t: "fmtref_try fmt_r obj ref = probe_attrs ref (attributes obj)"
    by (rule try_attrs)
  assume "\<forall>(a, g)\<in>set (attributes obj). g \<noteq> None \<and> g \<noteq> Some ref"
  then have c: "fmtref_try fmt_r obj ref = Continue"
    by (simp add: t probe_attrs_Continue)
  then show "fmtref_try fmt_r obj ref = Continue" .
  from c describe_other [of fmt_r obj ref]
  show "fmtref fmt_r obj ref = None" and "describe fmt_r obj ref = ''{obj:} -> {ref:}''"
    by simp_all
next
  fix pre name post
  assume "ref \<notin> fst ` set (entries (mapping_items obj)) \<union> snd ` set (entries (mapping_items obj))"
    and "ref \<notin> set (entries (sequence_items obj))" and "ref \<notin> set (entries (set_items obj))"
  then have t: "fmtref_try fmt_r obj ref = probe_attrs ref (attributes obj)"
    by (rule try_attrs)
  assume "attributes obj = pre @ (name, None) # post"
    and "\<forall>(a, g)\<in>set pre. g \<noteq> None \<and> g \<noteq> Some ref"
  then have c: "fmtref_try fmt_r obj ref = Raise"
    by (simp add: t probe_attrs_fail)
  then show "fmtref_try fmt_r obj ref = Raise" .
  from c describe_other [of fmt_r obj ref]
  show "fmtref fmt_r obj ref = None" and "describe fmt_r obj ref = ''{obj:} -> {ref:}''"
    by simp_all
next
  fix pre key post
  assume "entries (mapping_items obj) = pre @ (key, ref) # post"
    and "ref \<notin> fst ` set pre \<union> snd ` set pre" and "fmt_r key = None"
  then have c: "fmtref_try fmt_r obj ref = Raise"
    by (simp add: try_mapping_value [of obj pre key ref post fmt_r])
  then show "fmtref_try fmt_r obj ref = Raise" .
  from c describe_other [of fmt_r obj ref]
  show "fmtref fmt_r obj ref = None" and "describe fmt_r obj ref = ''{obj:} -> {ref:}''"
    by simp_all
next
  assume c: "fmtref_try fmt_r obj ref = Raise"
  from c describe_other [of fmt_r obj ref]
  show "fmtref fmt_r obj ref = None" and "describe fmt_r obj ref = ''{obj:} -> {ref:}''"
    by simp_all
next
  fix k r sq st at
  assume "fmt_r k = Some r"
  then have "fmtref_try fmt_r \<lparr>mapping_items = Some [(k, ref)], sequence_items = sq, set_items = st,
                      attributes = at\<rparr> ref = Return (''{obj:}['' @ r @ ''] is {ref:}'')"
    by (simp add: fmtref_try_def or_else_def)
  from fmtref_Return [OF this]
  show "describe fmt_r \<lparr>mapping_items = Some [(k, ref)], sequence_items = sq, set_items = st,
                      attributes = at\<rparr> ref = ''{obj:}['' @ r @ ''] is {ref:}''"
    by simp
next
  fix x st at
  assume "x \<noteq> ref"
  then have "fmtref_try fmt_r \<lparr>mapping_items = None, sequence_items = Some [x, ref], set_items = st,
                      attributes = at\<rparr> ref = Return ''{obj:}[1] is {ref:}''"
    using show_nat_1 by (simp add: fmtref_try_def or_else_def)
  from fmtref_Return [OF this]
  show "describe fmt_r \<lparr>mapping_items = None, sequence_items = Some [x, ref], set_items = st,
                      attributes = at\<rparr> ref = ''{obj:}[1] is {ref:}''"
    by simp
qed

theorem fmtref_first_match_witness:
  "describe (\<lambda>k. Some ''2'') \<lparr>mapping_items = Some [(3::nat, 4), (0, 1), (2, 0)],
      sequence_items = Some [0], set_items = None, attributes = []\<rparr> 0 = ''{obj:}[{ref:}]'' \<and>
   describe (\<lambda>k. Some ''2'') \<lparr>mapping_items = Some [(2::nat, 0)], sequence_items = None,
      set_items = None, attributes = []\<rparr> 0 = ''{obj:}[2] is {ref:}'' \<and>
   describe (\<lambda>k. Some ''2'') \<lparr>mapping_items = None, sequence_items = Some [5::nat, 0],
      set_items = None, attributes = []\<rparr> 0 = ''{obj:}[1] is {ref:}''"
  using fmtref_first_match [of "\<lparr>mapping_items = Some [(3::nat, 4), (0, 1), (2, 0)],
      sequence_items = Some [0], set_items = None, attributes = []\<rparr>" "0::nat" "\<lambda>k. Some ''2''",
      THEN conjunct2, THEN conjunct1, rule_format, of "[(3, 4)]" 1 "[(2, 0)]"]
    fmtref_first_match [of "\<lparr>mapping_items = None, sequence_items = None,
      set_items = None, attributes = []\<rparr>" "0::nat" "\<lambda>k. Some ''2''"]
  by (simp add: entries_def)

theorem fmtref_priority_counterexample:
  "describe (\<lambda>k. Some ''2'') \<lparr>mapping_items = Some [(0::nat, 1), (2, 0)], sequence_items = None,
      set_items = None, attributes = []\<rparr> 0 = ''{obj:}[{ref:}]'' \<and>
   spec_describe (\<lambda>k. Some ''2'') \<lparr>mapping_items = Some [(0::nat, 1), (2, 0)], sequence_items = None,
      set_items = None, attributes = []\<rparr> 0 = ''{obj:}[2] is {ref:}''"
  by code_simp

end
